theory Spec2Isabelle
  imports Complex_Main "HOL-Library.AList"
begin

section \<open>Python values used by the client\<close>

text \<open>
  The exceptions the modelled code can raise. \<open>HTTPError\<close> and \<open>RequestException\<close>
  are the two classes of \<open>requests.exceptions\<close> that \<open>api_search\<close> catches, logs and
  re-raises; the others are built-in exceptions.
\<close>

datatype error = ValueError | TypeError | IndexError | ZeroDivisionError
  | HTTPError | RequestException

text \<open>
  A value of the request parameter dictionary: \<open>_build_params\<close> stores strings and
  integers, \<open>parse_qs\<close> followed by the comprehension of line 397 stores strings and
  lists of strings. The dictionary itself is an association list in insertion order;
  \<open>params[k] = v\<close> is \<open>AList.update k v params\<close> and a lookup is \<open>map_of\<close>.
\<close>

datatype pval = PInt int | PStr string | PList "string list"

type_synonym params = "(string \<times> pval) list"

definition dict_get :: "params \<Rightarrow> string \<Rightarrow> pval option" where
  "dict_get d k = map_of d k"

text \<open>\<open>s.replace(old, new)\<close> for a one-character \<open>old\<close>.\<close>

definition replace :: "char \<Rightarrow> string \<Rightarrow> string \<Rightarrow> string" where
  "replace old new s = concat (map (\<lambda>c. if c = old then new else [c]) s)"

text \<open>\<open>s.split(sep)\<close> for a one-character separator: never empty.\<close>

fun split :: "char \<Rightarrow> string \<Rightarrow> string list" where
  "split sep [] = [[]]"
| "split sep (c # cs) =
     (if c = sep then [] # split sep cs
      else (case split sep cs of
              [] \<Rightarrow> [[c]]
            | w # ws \<Rightarrow> (c # w) # ws))"

text \<open>Truth value of an \<open>Optional[str]\<close>: \<open>None\<close> and the empty string are false.\<close>

fun truthy :: "string option \<Rightarrow> bool" where
  "truthy None = False"
| "truthy (Some s) = (s \<noteq> [])"

text \<open>
  The ASCII characters for which \<open>str.isspace\<close> holds: tab, line feed, vertical tab,
  form feed, carriage return, the four separators \<open>0x1C\<close> to \<open>0x1F\<close>, and space.
\<close>

definition whitespace :: "char \<Rightarrow> bool" where
  "whitespace c = (c \<in> set [CHR 0x09, CHR 0x0A, CHR 0x0B, CHR 0x0C, CHR 0x0D,
                              CHR 0x1C, CHR 0x1D, CHR 0x1E, CHR 0x1F, CHR 0x20])"

fun has_whitespace :: "string \<Rightarrow> bool" where
  "has_whitespace [] = False"
| "has_whitespace (c # cs) = (whitespace c \<or> has_whitespace cs)"

section \<open>models.py: the query and its validation\<close>

text \<open>
  \<open>BaseQuery\<close>: the five dataclass fields every query has, and the class attribute
  \<open>ENDPOINT_PATH\<close>. The fields carry a \<open>q_\<close> prefix because \<open>sort\<close> and \<open>count\<close>
  are constants of the library.
\<close>

record query =
  q_ENDPOINT_PATH :: string
  q_search :: "string option"
  q_sort :: "string option"
  q_count :: "string option"
  q_limit :: "int option"
  q_skip :: "int option"

definition validate_limit :: "int option \<Rightarrow> error + unit" where
  "validate_limit limit =
     (case limit of
        None \<Rightarrow> Inr ()
      | Some l \<Rightarrow> if l < - 1 then Inl ValueError
                  else if l = 0 then Inl ValueError
                  else Inr ())"

definition validate_skip :: "int option \<Rightarrow> error + unit" where
  "validate_skip skip =
     (case skip of
        None \<Rightarrow> Inr ()
      | Some k \<Rightarrow> if k < 0 \<or> k > 25000 then Inl ValueError else Inr ())"

definition validate_sort :: "string option \<Rightarrow> error + unit" where
  "validate_sort sort_by =
     (case sort_by of
        None \<Rightarrow> Inr ()
      | Some s \<Rightarrow>
          if CHR '':'' \<in> set s then
            (case split CHR '':'' s of
               _ # order # _ \<Rightarrow>
                 if order = ''asc'' \<or> order = ''desc'' then Inr () else Inl ValueError
             | _ \<Rightarrow> Inl IndexError)
          else Inr ())"

text \<open>
  \<open>BaseQuery.__post_init__\<close>: the three validations in the order of the source. The
  fourth call, \<open>_validate_endpoint_specific\<close>, reads only fields that the subclasses
  add (it is \<open>pass\<close> in all but one of them) and is left out.
\<close>

definition post_init :: "query \<Rightarrow> error + unit" where
  "post_init q =
     (case validate_limit (q_limit q) of
        Inl e \<Rightarrow> Inl e
      | Inr _ \<Rightarrow>
          (case validate_skip (q_skip q) of
             Inl e \<Rightarrow> Inl e
           | Inr _ \<Rightarrow> validate_sort (q_sort q)))"

section \<open>openfda\_client.py: the parameter builder\<close>

text \<open>
  \<open>FDAClient._build_params(query, limit, skip)\<close>. An override that is \<open>None\<close> falls
  back to the field of the query; the limit is stored unless it is 1000, the skip only
  when it is positive.
\<close>

definition build_params :: "query \<Rightarrow> int option \<Rightarrow> int option \<Rightarrow> params" where
  "build_params query limit skip =
     (let params = [];
          params = (case q_search query of
                      Some s \<Rightarrow> if s \<noteq> [] then AList.update ''search'' (PStr (replace CHR '' '' ''+'' s)) params
                                else params
                    | None \<Rightarrow> params);
          params = (case q_sort query of
                      Some s \<Rightarrow> if s \<noteq> [] then AList.update ''sort'' (PStr (replace CHR '' '' '''' s)) params
                                else params
                    | None \<Rightarrow> params);
          params = (case q_count query of
                      Some s \<Rightarrow> if s \<noteq> [] then AList.update ''count'' (PStr (replace CHR '' '' ''+'' s)) params
                                else params
                    | None \<Rightarrow> params);
          effective_limit = (case limit of Some l \<Rightarrow> Some l | None \<Rightarrow> q_limit query);
          effective_skip = (case skip of Some k \<Rightarrow> Some k | None \<Rightarrow> q_skip query);
          params = (case effective_limit of
                      Some l \<Rightarrow> if l \<noteq> 1000 then AList.update ''limit'' (PInt l) params else params
                    | None \<Rightarrow> params);
          params = (case effective_skip of
                      Some k \<Rightarrow> if k > 0 then AList.update ''skip'' (PInt k) params else params
                    | None \<Rightarrow> params)
      in params)"

section \<open>Properties of the parameter builder\<close>

lemma dict_get_update:
  "dict_get (AList.update k v d) k' = (if k' = k then Some v else dict_get d k')"
  by (simp add: dict_get_def update_conv')

lemma dict_get_Nil: "dict_get [] k = None"
  by (simp add: dict_get_def)

lemma replace_no_old: "old \<notin> set new \<Longrightarrow> old \<notin> set (replace old new s)"
  by (induction s) (auto simp: replace_def)

lemma replace_empty_filter: "replace old [] s = filter (\<lambda>c. c \<noteq> old) s"
  by (induction s) (auto simp: replace_def)

lemma build_params_skip:
  "dict_get (build_params q l k) ''skip'' =
     (case (case k of Some k' \<Rightarrow> Some k' | None \<Rightarrow> q_skip q) of
        Some n \<Rightarrow> if n > 0 then Some (PInt n) else None
      | None \<Rightarrow> None)"
  unfolding build_params_def Let_def
  by (simp add: dict_get_update dict_get_Nil del: AList.update.simps split: option.splits)

lemma build_params_limit:
  "dict_get (build_params q l k) ''limit'' =
     (case (case l of Some l' \<Rightarrow> Some l' | None \<Rightarrow> q_limit q) of
        Some n \<Rightarrow> if n \<noteq> 1000 then Some (PInt n) else None
      | None \<Rightarrow> None)"
  unfolding build_params_def Let_def
  by (simp add: dict_get_update dict_get_Nil del: AList.update.simps split: option.splits)

lemma build_params_sort:
  "dict_get (build_params q l k) ''sort'' =
     (case q_sort q of
        Some s \<Rightarrow> if s \<noteq> [] then Some (PStr (replace CHR '' '' '''' s)) else None
      | None \<Rightarrow> None)"
  unfolding build_params_def Let_def
  by (simp add: dict_get_update dict_get_Nil del: AList.update.simps split: option.splits)

text \<open>
  Claim C1, as the code has it. With the skip override \<open>None\<close> the builder falls back
  to the skip of the query: the map holds \<open>skip\<close> exactly when \<open>query.skip\<close> is set
  and positive, and then with that value; it has no \<open>skip\<close> key when \<open>query.skip\<close>
  is \<open>None\<close> or not positive.
\<close>

theorem build_params_skip_None:
  "dict_get (build_params q l None) ''skip'' =
     (case q_skip q of
        Some n \<Rightarrow> if n > 0 then Some (PInt n) else None
      | None \<Rightarrow> None)"
  by (simp add: build_params_skip)

text \<open>
  The claim as stated fails: a query that passes validation and has \<open>skip = 100\<close>
  gets \<open>skip = 100\<close> in the map although the override is \<open>None\<close>.
\<close>

theorem build_params_skip_None_counterexample:
  "post_init \<lparr>q_ENDPOINT_PATH = ''/drug/event.json'', q_search = None,
              q_sort = Some ''receivedate:asc'', q_count = None,
              q_limit = Some (- 1), q_skip = Some 100\<rparr> = Inr ()
   \<and> dict_get (build_params \<lparr>q_ENDPOINT_PATH = ''/drug/event.json'', q_search = None,
              q_sort = Some ''receivedate:asc'', q_count = None,
              q_limit = Some (- 1), q_skip = Some 100\<rparr> (Some 1000) None) ''skip''
       = Some (PInt 100)"
  by (simp add: post_init_def validate_limit_def validate_skip_def validate_sort_def
        build_params_skip)

text \<open>
  Claim C7, as the code has it. For a query whose sort is a non-empty string the map
  sends \<open>sort\<close> to that string with every space character (\<open>0x20\<close>) removed, so the
  value holds no space; any other character, whitespace included, is kept.
\<close>

theorem build_params_sort_spaces:
  assumes "q_sort q = Some s" and "s \<noteq> []"
  shows "dict_get (build_params q l k) ''sort'' = Some (PStr (filter (\<lambda>c. c \<noteq> CHR '' '') s))
         \<and> CHR '' '' \<notin> set (filter (\<lambda>c. c \<noteq> CHR '' '') s)"
  using assms by (simp add: build_params_sort replace_empty_filter)

theorem build_params_sort_spaces_witness:
  "dict_get (build_params \<lparr>q_ENDPOINT_PATH = ''/drug/event.json'', q_search = None,
              q_sort = Some ''receive date:asc'', q_count = None,
              q_limit = Some 1000, q_skip = None\<rparr> None None) ''sort''
     = Some (PStr ''receivedate:asc'')"
  using build_params_sort_spaces [of "\<lparr>q_ENDPOINT_PATH = ''/drug/event.json'', q_search = None,
              q_sort = Some ''receive date:asc'', q_count = None,
              q_limit = Some 1000, q_skip = None\<rparr>" "''receive date:asc''" None None]
  by simp

text \<open>
  The claim as stated fails: a tab inside the sort string passes validation and is
  still in the value stored under \<open>sort\<close>.
\<close>

theorem build_params_sort_counterexample:
  "post_init \<lparr>q_ENDPOINT_PATH = ''/drug/event.json'', q_search = None,
              q_sort = Some (''receive'' @ [CHR 0x09] @ ''date:asc''), q_count = None,
              q_limit = Some 1000, q_skip = None\<rparr> = Inr ()
   \<and> dict_get (build_params \<lparr>q_ENDPOINT_PATH = ''/drug/event.json'', q_search = None,
              q_sort = Some (''receive'' @ [CHR 0x09] @ ''date:asc''), q_count = None,
              q_limit = Some 1000, q_skip = None\<rparr> None None) ''sort''
       = Some (PStr (''receive'' @ [CHR 0x09] @ ''date:asc''))
   \<and> has_whitespace (''receive'' @ [CHR 0x09] @ ''date:asc'')"
  by (simp add: post_init_def validate_limit_def validate_skip_def validate_sort_def
        build_params_sort replace_def whitespace_def)

section \<open>openfda\_client.py: the token bucket\<close>

text \<open>
  \<open>RateLimiter\<close>. Time stamps and the token count are Python floats; they are
  modelled as real numbers, so rounding is not part of the model. \<open>time.time()\<close> is an
  input: \<open>acquire\<close> takes the reading at its entry (\<open>now\<close>) and the reading after the
  sleep (\<open>woke\<close>), and nothing is assumed about either. The lock makes one call atomic,
  so calls are modelled one after the other. A division by zero and a negative argument
  of \<open>time.sleep\<close> raise.
\<close>

record rate_limiter =
  max_requests :: int
  time_window :: real
  tokens :: real
  last_update :: real

definition rate_limiter_init :: "int \<Rightarrow> real \<Rightarrow> real \<Rightarrow> rate_limiter" where
  "rate_limiter_init max_req window now =
     \<lparr>max_requests = max_req, time_window = window,
      tokens = real_of_int max_req, last_update = now\<rparr>"

definition acquire :: "rate_limiter \<Rightarrow> real \<Rightarrow> real \<Rightarrow> error + rate_limiter" where
  "acquire self now woke =
     (let elapsed = now - last_update self in
      if time_window self = 0 then Inl ZeroDivisionError
      else
        let self = self\<lparr>tokens := min (real_of_int (max_requests self))
                                     (tokens self
                                      + elapsed * real_of_int (max_requests self) / time_window self),
                        last_update := now\<rparr>
        in if tokens self < 1 then
             (if max_requests self = 0 then Inl ZeroDivisionError
              else
                let sleep_time = (1 - tokens self) * time_window self / real_of_int (max_requests self)
                in if sleep_time < 0 then Inl ValueError
                   else Inr (self\<lparr>tokens := 1 - 1, last_update := woke\<rparr>))
           else Inr (self\<lparr>tokens := tokens self - 1\<rparr>))"

fun acquire_all :: "rate_limiter \<Rightarrow> (real \<times> real) list \<Rightarrow> error + rate_limiter" where
  "acquire_all self [] = Inr self"
| "acquire_all self ((now, woke) # clock) =
     (case acquire self now woke of
        Inl e \<Rightarrow> Inl e
      | Inr self' \<Rightarrow> acquire_all self' clock)"

section \<open>Properties of the token bucket\<close>

definition configured :: "rate_limiter \<Rightarrow> bool" where
  "configured self = (0 < max_requests self \<and> 0 < time_window self)"

definition within_capacity :: "rate_limiter \<Rightarrow> bool" where
  "within_capacity self = (0 \<le> tokens self \<and> tokens self \<le> real_of_int (max_requests self))"

lemma acquire_returns:
  assumes "configured self"
  shows "\<exists>self'. acquire self now woke = Inr self' \<and> configured self' \<and> within_capacity self'
          \<and> max_requests self' = max_requests self \<and> time_window self' = time_window self"
proof -
  let ?cap = "real_of_int (max_requests self)"
  from assms have cap: "0 < max_requests self" and win: "0 < time_window self"
    by (simp_all add: configured_def)
  have sleep: "\<not> (1 - y) * time_window self / ?cap < 0" if "y < 1" for y
  proof -
    from that cap win have "0 \<le> (1 - y) * time_window self / ?cap"
      by (intro divide_nonneg_pos mult_nonneg_nonneg) simp_all
    then show ?thesis by simp
  qed
  from cap win sleep show ?thesis
    by (auto simp: acquire_def Let_def configured_def within_capacity_def min_def)
qed

lemma acquire_all_returns:
  assumes "configured self" and "within_capacity self"
  shows "\<exists>self'. acquire_all self clock = Inr self' \<and> within_capacity self'
          \<and> max_requests self' = max_requests self"
  using assms
proof (induction clock arbitrary: self)
  case Nil
  then show ?case by simp
next
  case (Cons c clock)
  obtain now woke where c: "c = (now, woke)" by (cases c)
  from acquire_returns [OF Cons.prems(1), of now woke]
  obtain s1 where s1: "acquire self now woke = Inr s1" "configured s1" "within_capacity s1"
      "max_requests s1 = max_requests self"
    by blast
  from Cons.IH [OF s1(2,3)] s1(1,4) c show ?case by simp
qed

text \<open>
  Claim C2. A limiter built with a positive capacity and a positive window answers
  every sequence of \<open>acquire\<close> calls, whatever the clock readings are, without
  raising, and after the last call of the sequence the token count is between 0 and the
  capacity. Every prefix of a sequence is a sequence, so this holds after each call.
\<close>

theorem tokens_within_capacity:
  assumes "0 < capacity" and "0 < window"
  shows "\<exists>self'. acquire_all (rate_limiter_init capacity window t0) clock = Inr self'
           \<and> 0 \<le> tokens self' \<and> tokens self' \<le> real_of_int capacity"
proof -
  have "configured (rate_limiter_init capacity window t0)"
    and "within_capacity (rate_limiter_init capacity window t0)"
    using assms by (simp_all add: configured_def within_capacity_def rate_limiter_init_def)
  from acquire_all_returns [OF this, of clock] show ?thesis
    by (auto simp: within_capacity_def rate_limiter_init_def)
qed

theorem tokens_within_capacity_witness:
  "\<exists>self'. acquire_all (rate_limiter_init 2 60 0) [(0, 0), (0, 0), (0, 30), (100, 100)] = Inr self'
           \<and> 0 \<le> tokens self' \<and> tokens self' \<le> 2"
  using tokens_within_capacity [of 2 60 0 "[(0, 0), (0, 0), (0, 30), (100, 100)]"] by simp

section \<open>openfda\_client.py: the pagination engine\<close>

subsection \<open>The remote service\<close>

text \<open>
  What one \<open>session.get\<close> gives back. \<open>Transport\<close> is an exception of the call itself,
  \<open>Status\<close> the \<open>HTTPError\<close> of \<open>raise_for_status\<close>. A page is the JSON body as the
  code reads it: \<open>results\<close> (absent reads as the empty list), \<open>meta.results.total\<close>
  (\<open>None\<close> when absent) and the \<open>Link\<close> header. The header is kept as the outcome of
  the tests of lines 379 to 397, which are calls of \<open>re\<close> and \<open>urllib.parse\<close>:
  \<open>No_next\<close> when the text has no \<open>rel="next"\<close>, \<open>Unparsed_next\<close> when it has one and
  the pattern does not match, \<open>Next p\<close> when it matches and \<open>p\<close> is the dictionary read
  from the query string of the URL.
\<close>

datatype next_link = No_next | Unparsed_next | Next params

record 'd page =
  results :: "'d list"
  meta_total :: "int option"
  link_header :: next_link

datatype failure = Transport | Status

datatype 'd response = Failure failure | Page "'d page"

text \<open>
  The service answers the \<open>n\<close>-th request of a run (counted from 0) with a response
  that may depend on \<open>n\<close> and on the parameters sent.
\<close>

type_synonym 'd service = "nat \<Rightarrow> params \<Rightarrow> 'd response"

fun raised :: "failure \<Rightarrow> error" where
  "raised Status = HTTPError"
| "raised Transport = RequestException"

subsection \<open>Values and state of one run\<close>

text \<open>\<open>Record\<close> and \<open>QueryResult\<close> of models.py.\<close>

datatype 'd fda_record = Record (raw_record: 'd)

record 'd query_result =
  qr_query :: "query option"
  total_results :: int
  records :: "'d fda_record list"

text \<open>
  \<open>user_limit\<close> and \<open>remaining\<close> are an integer or \<open>float('inf')\<close>. The three
  functions are \<open>remaining > 0\<close>, \<open>min(remaining, n)\<close> and \<open>remaining - n\<close>.
\<close>

datatype amount = Finite int | Infinite

fun is_positive :: "amount \<Rightarrow> bool" where
  "is_positive (Finite n) = (n > 0)"
| "is_positive Infinite = True"

fun min_with :: "amount \<Rightarrow> int \<Rightarrow> int" where
  "min_with (Finite n) m = min n m"
| "min_with Infinite m = m"

fun subtract :: "amount \<Rightarrow> int \<Rightarrow> amount" where
  "subtract (Finite n) m = Finite (n - m)"
| "subtract Infinite m = Infinite"

text \<open>
  What a run does to the outside, in order: the two limiter acquisitions, the GET
  requests with the loop that sent them, and the log lines that mark a decision.
\<close>

datatype mode = Skip_limit | Search_after

datatype message = End_of_total | No_more_results | Partial_batch | Retrieved_all
  | Switching | No_sort | No_more_search_after | No_link | Bad_link
  | API_error | Network_error

datatype event = Acquire_minute | Acquire_day | Get mode params | Log message

fun error_message :: "failure \<Rightarrow> message" where
  "error_message Status = API_error"
| "error_message Transport = Network_error"

text \<open>
  The local variables of \<open>api_search\<close>, the query object the caller passed, the number
  of requests sent so far and the events so far.
\<close>

record 'd pstate =
  query :: query
  user_skip :: int
  all_results :: "'d fda_record list"
  current_skip :: int
  remaining :: amount
  total_available :: "int option"
  params :: params
  sent :: nat
  events :: "event list"

datatype 'd step = Continue "'d pstate" | Break "'d pstate" | Raise error "'d pstate"

definition emit :: "event list \<Rightarrow> 'd pstate \<Rightarrow> 'd pstate" where
  "emit es s = s\<lparr>events := events s @ es\<rparr>"

text \<open>The call \<open>params = self._build_params(query, limit, skip)\<close>.\<close>

definition call_build_params :: "int option \<Rightarrow> int option \<Rightarrow> 'd pstate \<Rightarrow> 'd pstate" where
  "call_build_params limit skip s = s\<lparr>params := build_params (query s) limit skip\<rparr>"

text \<open>
  Both limiters, then the request: lines 304 to 308 and 354 to 357. The two \<open>acquire\<close>
  calls are recorded as events and taken to return: they block, and the token bucket of
  a client built with a positive rate does not raise (see \<open>acquire_returns\<close>). The
  events are recorded whatever the request then gives back.
\<close>

definition session_get :: "'d service \<Rightarrow> mode \<Rightarrow> 'd pstate \<Rightarrow> 'd response \<times> 'd pstate" where
  "session_get service m s =
     (service (sent s) (params s),
      emit [Acquire_minute, Acquire_day, Get m (params s)] (s\<lparr>sent := Suc (sent s)\<rparr>))"

subsection \<open>Phase 1: skip/limit\<close>

text \<open>The body of the first loop from the request on (lines 297 to 337).\<close>

definition skip_limit_fetch :: "'d service \<Rightarrow> int \<Rightarrow> 'd pstate \<Rightarrow> 'd step" where
  "skip_limit_fetch service batch_size s =
     (let s = call_build_params (Some batch_size) (Some (current_skip s)) s;
          (response, s) = session_get service Skip_limit s
      in case response of
           Failure f \<Rightarrow> Raise (raised f) (emit [Log (error_message f)] s)
         | Page data \<Rightarrow>
             let batch_results = map Record (results data);
                 avail = (case meta_total data of None \<Rightarrow> 0 | Some t \<Rightarrow> t);
                 s = s\<lparr>total_available := Some avail\<rparr>
             in if batch_results = [] then Break (emit [Log No_more_results] s)
                else
                  let s = s\<lparr>all_results := all_results s @ batch_results\<rparr>
                  in if int (length batch_results) < batch_size then
                       Break (emit [Log Partial_batch] s)
                     else if int (length (all_results s)) \<ge> avail then
                       Break (emit [Log Retrieved_all] s)
                     else
                       Continue (s\<lparr>remaining := subtract (remaining s) (int (length batch_results)),
                                    current_skip := current_skip s + int (length batch_results)\<rparr>))"

text \<open>The whole body: the batch size first (lines 288 to 295).\<close>

definition skip_limit_step :: "'d service \<Rightarrow> 'd pstate \<Rightarrow> 'd step" where
  "skip_limit_step service s =
     (let batch_size = min_with (remaining s) 1000
      in case total_available s of
           None \<Rightarrow> skip_limit_fetch service batch_size s
         | Some t \<Rightarrow>
             let remaining_in_dataset = t - (current_skip s - user_skip s);
                 batch_size = min batch_size remaining_in_dataset
             in if batch_size \<le> 0 then Break (emit [Log End_of_total] s)
                else skip_limit_fetch service batch_size s)"

lemma skip_limit_step_advances:
  "skip_limit_step service s = Continue s' \<Longrightarrow> current_skip s < current_skip s'"
  by (auto simp: skip_limit_step_def skip_limit_fetch_def session_get_def emit_def
        call_build_params_def Let_def
      split: option.splits response.splits if_splits)

function skip_limit_loop :: "'d service \<Rightarrow> 'd pstate \<Rightarrow> error option \<times> 'd pstate" where
  "skip_limit_loop service s =
     (if is_positive (remaining s) \<and> current_skip s < 25000 then
        (case skip_limit_step service s of
           Continue s' \<Rightarrow> skip_limit_loop service s'
         | Break s' \<Rightarrow> (None, s')
         | Raise e s' \<Rightarrow> (Some e, s'))
      else (None, s))"
  by pat_completeness auto
termination
  by (relation "measure (\<lambda>(service, s). nat (25000 - current_skip s))")
     (auto dest: skip_limit_step_advances)

declare skip_limit_loop.simps [simp del]

subsection \<open>Phase 2: search\_after\<close>

text \<open>
  The body of the second loop (lines 351 to 397). \<open>total_available\<close> is compared with a
  length, which raises \<open>TypeError\<close> when it is \<open>None\<close>.
\<close>

definition search_after_step :: "'d service \<Rightarrow> 'd pstate \<Rightarrow> 'd step" where
  "search_after_step service s =
     (let (response, s) = session_get service Search_after s
      in case response of
           Failure f \<Rightarrow> Raise (raised f) (emit [Log (error_message f)] s)
         | Page data \<Rightarrow>
             let batch_results = map Record (results data)
             in if batch_results = [] then Break (emit [Log No_more_search_after] s)
                else
                  let s = s\<lparr>all_results := all_results s @ batch_results,
                             remaining := subtract (remaining s) (int (length batch_results))\<rparr>
                  in (case total_available s of
                        None \<Rightarrow> Raise TypeError s
                      | Some avail \<Rightarrow>
                          if int (length (all_results s)) \<ge> avail then
                            Break (emit [Log Retrieved_all] s)
                          else
                            (case link_header data of
                               No_next \<Rightarrow> Break (emit [Log No_link] s)
                             | Unparsed_next \<Rightarrow> Break (emit [Log Bad_link] s)
                             | Next p \<Rightarrow> Continue (s\<lparr>params := p\<rparr>))))"

definition unseen :: "'d pstate \<Rightarrow> nat" where
  "unseen s = (case total_available s of
                 None \<Rightarrow> 0
               | Some avail \<Rightarrow> nat (avail - int (length (all_results s))))"

lemma search_after_step_advances:
  "search_after_step service s = Continue s' \<Longrightarrow> unseen s' < unseen s"
  by (auto simp: search_after_step_def session_get_def emit_def Let_def unseen_def
      split: option.splits response.splits if_splits next_link.splits)

function search_after_loop :: "'d service \<Rightarrow> 'd pstate \<Rightarrow> error option \<times> 'd pstate" where
  "search_after_loop service s =
     (if is_positive (remaining s) then
        (case search_after_step service s of
           Continue s' \<Rightarrow> search_after_loop service s'
         | Break s' \<Rightarrow> (None, s')
         | Raise e s' \<Rightarrow> (Some e, s'))
      else (None, s))"
  by pat_completeness auto
termination
  by (relation "measure (\<lambda>(service, s). unseen s)")
     (auto dest: search_after_step_advances)

declare search_after_loop.simps [simp del]

text \<open>
  Lines 340 to 397: the guard of phase 2, with \<open>and\<close> evaluated from the left, the
  check of the sort field, the first parameters and the loop.
\<close>

definition search_after_phase :: "'d service \<Rightarrow> 'd pstate \<Rightarrow> error option \<times> 'd pstate" where
  "search_after_phase service s =
     (if is_positive (remaining s) \<and> current_skip s \<ge> 25000 then
        (case total_available s of
           None \<Rightarrow> (Some TypeError, s)
         | Some avail \<Rightarrow>
             if int (length (all_results s)) < avail then
               (let s = emit [Log Switching] s
                in if \<not> truthy (q_sort (query s)) then (None, emit [Log No_sort] s)
                   else search_after_loop service
                          (call_build_params (Some (min_with (remaining s) 1000)) None s))
             else (None, s))
      else (None, s))"

subsection \<open>api\_search\<close>

text \<open>Lines 265 to 278: the locals before the first loop.\<close>

definition start :: "query \<Rightarrow> 'd pstate" where
  "start q =
     (let user_skip = (case q_skip q of None \<Rightarrow> 0 | Some k \<Rightarrow> if k = 0 then 0 else k);
          user_limit = (case q_limit q of None \<Rightarrow> 1000 | Some l \<Rightarrow> if l = 0 then 1000 else l);
          unlimited_mode = (user_limit = - 1);
          user_limit = (if unlimited_mode then Infinite else Finite user_limit)
      in \<lparr>query = q, user_skip = user_skip, all_results = [], current_skip = user_skip,
          remaining = user_limit, total_available = None, params = [], sent = 0,
          events = []\<rparr>)"

text \<open>
  The \<open>try\<close> block up to the \<open>return\<close>: the error raised, if any, and the state at that
  point.
\<close>

definition run :: "'d service \<Rightarrow> query \<Rightarrow> error option \<times> 'd pstate" where
  "run service q =
     (case skip_limit_loop service (start q) of
        (Some e, s) \<Rightarrow> (Some e, s)
      | (None, s) \<Rightarrow> search_after_phase service s)"

text \<open>What the caller gets: the exception, or the \<open>QueryResult\<close> of line 399.\<close>

definition api_search :: "'d service \<Rightarrow> query \<Rightarrow> error + 'd query_result" where
  "api_search service q =
     (case run service q of
        (Some e, s) \<Rightarrow> Inl e
      | (None, s) \<Rightarrow>
          Inr \<lparr>qr_query = Some (query s),
               total_results = (case total_available s of None \<Rightarrow> 0 | Some t \<Rightarrow> t),
               records = all_results s\<rparr>)"

text \<open>The requests of an event list, in the order sent.\<close>

fun gets :: "event list \<Rightarrow> (mode \<times> params) list" where
  "gets [] = []"
| "gets (Get m p # es) = (m, p) # gets es"
| "gets (_ # es) = gets es"

text \<open>The log lines of an event list, in order.\<close>

fun logs :: "event list \<Rightarrow> message list" where
  "logs [] = []"
| "logs (Log m # es) = m # logs es"
| "logs (_ # es) = logs es"

lemma logs_append: "logs (xs @ ys) = logs xs @ logs ys"
  by (induction xs rule: logs.induct) simp_all

lemma gets_append: "gets (xs @ ys) = gets xs @ gets ys"
  by (induction xs rule: gets.induct) simp_all

section \<open>Properties of the pagination engine\<close>

subsection \<open>The query object\<close>

fun state_of :: "'d step \<Rightarrow> 'd pstate" where
  "state_of (Continue s) = s"
| "state_of (Break s) = s"
| "state_of (Raise e s) = s"

lemma skip_limit_fetch_query: "query (state_of (skip_limit_fetch service b s)) = query s"
  by (simp add: skip_limit_fetch_def session_get_def emit_def call_build_params_def Let_def
      split: response.splits)

lemma skip_limit_step_query: "query (state_of (skip_limit_step service s)) = query s"
  by (simp add: skip_limit_step_def skip_limit_fetch_query emit_def Let_def split: option.splits)

lemma search_after_step_query: "query (state_of (search_after_step service s)) = query s"
  by (simp add: search_after_step_def session_get_def emit_def Let_def
      split: response.splits option.splits next_link.splits)

lemma skip_limit_loop_query: "query (snd (skip_limit_loop service s)) = query s"
proof (induction service s rule: skip_limit_loop.induct)
  case (1 service s)
  show ?case
  proof (cases "skip_limit_step service s")
    case (Continue s')
    with "1.IH" [of s'] skip_limit_step_query [of service s] show ?thesis
      by (subst skip_limit_loop.simps) simp
  next
    case (Break s')
    with skip_limit_step_query [of service s] show ?thesis
      by (subst skip_limit_loop.simps) simp
  next
    case (Raise e s')
    with skip_limit_step_query [of service s] show ?thesis
      by (subst skip_limit_loop.simps) simp
  qed
qed

lemma search_after_loop_query: "query (snd (search_after_loop service s)) = query s"
proof (induction service s rule: search_after_loop.induct)
  case (1 service s)
  show ?case
  proof (cases "search_after_step service s")
    case (Continue s')
    with "1.IH" [of s'] search_after_step_query [of service s] show ?thesis
      by (subst search_after_loop.simps) simp
  next
    case (Break s')
    with search_after_step_query [of service s] show ?thesis
      by (subst search_after_loop.simps) simp
  next
    case (Raise e s')
    with search_after_step_query [of service s] show ?thesis
      by (subst search_after_loop.simps) simp
  qed
qed

lemma search_after_phase_query: "query (snd (search_after_phase service s)) = query s"
  by (simp add: search_after_phase_def search_after_loop_query emit_def call_build_params_def
        Let_def split: option.splits)

lemma start_query: "query (start q) = q"
  by (simp add: start_def Let_def)

lemma run_query: "query (snd (run service q)) = q"
proof (cases "skip_limit_loop service (start q)")
  case (Pair r s)
  with skip_limit_loop_query [of service "start q"] have "query s = q"
    by (simp add: start_query)
  with Pair search_after_phase_query [of service s] show ?thesis
    by (cases r) (simp_all add: run_def)
qed

text \<open>
  Claim C9. The state of a run holds the query object the caller passed. Whatever the
  service answers and however the run ends, that object is the one passed in, field by
  field; the \<open>QueryResult\<close>, when there is one, refers to it; and a call of
  \<open>_build_params\<close>, with any overrides, writes the local \<open>params\<close> and leaves the
  query as it was.
\<close>

theorem query_never_mutated:
  "query (snd (run service q)) = q
   \<and> (case api_search service q of Inl e \<Rightarrow> True | Inr r \<Rightarrow> qr_query r = Some q)
   \<and> query (call_build_params l k s) = query s"
proof -
  have "(case api_search service q of Inl e \<Rightarrow> True | Inr r \<Rightarrow> qr_query r = Some q)"
    using run_query [of service q]
    by (cases "run service q") (auto simp: api_search_def split: option.splits)
  then show ?thesis
    by (simp add: run_query call_build_params_def)
qed

subsection \<open>A query that starts at offset 25000\<close>

lemma valid_limit_positive:
  "validate_limit (q_limit q) = Inr () \<Longrightarrow> is_positive (remaining (start q))"
  by (auto simp: validate_limit_def start_def Let_def split: option.splits if_splits)

lemma run_from_25000:
  fixes service :: "'d service"
  assumes "q_skip q = Some 25000" and "is_positive (remaining (start q :: 'd pstate))"
  shows "run service q = (Some TypeError, start q)"
proof -
  let ?s = "start q :: 'd pstate"
  have cs: "current_skip ?s = 25000" and ta: "total_available ?s = None"
    using assms(1) by (simp_all add: start_def Let_def)
  have loop: "skip_limit_loop service ?s = (None, ?s)"
    using cs by (subst skip_limit_loop.simps) simp
  show ?thesis
    using assms(2) cs ta loop by (simp add: run_def search_after_phase_def)
qed

lemma start_untouched:
  "total_available (start q) = None" "events (start q) = []" "sent (start q) = 0"
  by (simp_all add: start_def Let_def)

text \<open>
  Claim C10. A query with \<open>skip = 25000\<close> and a limit that \<open>validate_limit\<close> accepts
  makes \<open>api_search\<close> raise \<open>TypeError\<close>: the first loop is not entered, so
  \<open>total_available\<close> is still \<open>None\<close> when the guard of phase 2 compares it; no
  limiter was acquired and no request sent.
\<close>

theorem skip_25000_TypeError:
  fixes service :: "'d service"
  assumes "q_skip q = Some 25000" and "validate_limit (q_limit q) = Inr ()"
  shows "api_search service q = Inl TypeError
         \<and> run service q = (Some TypeError, start q)
         \<and> total_available (snd (run service q)) = None
         \<and> events (snd (run service q)) = [] \<and> sent (snd (run service q)) = 0"
proof -
  have "run service q = (Some TypeError, start q)"
    using assms(1) valid_limit_positive [OF assms(2)] by (rule run_from_25000)
  then show ?thesis
    by (simp add: api_search_def start_untouched)
qed

theorem skip_25000_TypeError_witness:
  "api_search (\<lambda>n p. Page \<lparr>results = [0::nat], meta_total = Some 1, link_header = No_next\<rparr>)
     \<lparr>q_ENDPOINT_PATH = ''/drug/event.json'', q_search = None, q_sort = None,
      q_count = None, q_limit = Some 1000, q_skip = Some 25000\<rparr> = Inl TypeError"
  using skip_25000_TypeError [of "\<lparr>q_ENDPOINT_PATH = ''/drug/event.json'', q_search = None,
      q_sort = None, q_count = None, q_limit = Some 1000, q_skip = Some 25000\<rparr>"
      "\<lambda>n p. Page \<lparr>results = [0::nat], meta_total = Some 1, link_header = No_next\<rparr>"]
  by (simp add: validate_limit_def)

subsection \<open>Reaching offset 25000 without a sort field\<close>

lemma emit_emit: "emit es (emit es' s) = emit (es' @ es) s"
  by (simp add: emit_def)

text \<open>
  Claim C4. When the first loop ends without an error in a state \<open>s\<close> with records
  still requested, \<open>current_skip\<close> at 25000 or more and fewer records than
  \<open>total_available\<close>, and the query has no sort field, \<open>api_search\<close> does not raise:
  it returns a result that holds exactly the records of \<open>s\<close>; the log of the run is
  the log up to \<open>s\<close> followed by the switch line and the warning; and the requests of
  the run are those sent up to \<open>s\<close>, none after.
\<close>

theorem no_sort_degrades:
  fixes service :: "'d service"
  assumes "skip_limit_loop service (start q) = (None, s)"
    and "is_positive (remaining s)" and "current_skip s \<ge> 25000"
    and "total_available s = Some t" and "int (length (all_results s)) < t"
    and "\<not> truthy (q_sort q)"
  shows "api_search service q
           = Inr \<lparr>qr_query = Some q, total_results = t, records = all_results s\<rparr>
         \<and> fst (run service q) = None
         \<and> logs (events (snd (run service q))) = logs (events s) @ [Switching, No_sort]
         \<and> gets (events (snd (run service q))) = gets (events s)
         \<and> sent (snd (run service q)) = sent s
         \<and> all_results (snd (run service q)) = all_results s"
proof -
  from skip_limit_loop_query [of service "start q"] assms(1) have q: "query s = q"
    by (simp add: start_query)
  have "search_after_phase service s = (None, emit [Log Switching, Log No_sort] s)"
    using assms(2-6) q by (simp add: search_after_phase_def emit_def Let_def)
  with assms(1) have run: "run service q = (None, emit [Log Switching, Log No_sort] s)"
    by (simp add: run_def)
  have "logs (events (emit [Log Switching, Log No_sort] s)) = logs (events s) @ [Switching, No_sort]"
    and "gets (events (emit [Log Switching, Log No_sort] s)) = gets (events s)"
    by (simp_all add: emit_def logs_append gets_append)
  with run q assms(4) show ?thesis
    by (simp add: api_search_def) (simp add: emit_def)
qed

definition q_no_sort :: query where
  "q_no_sort = \<lparr>q_ENDPOINT_PATH = ''/drug/event.json'', q_search = None, q_sort = None,
      q_count = None, q_limit = Some 2000, q_skip = Some 24000\<rparr>"

definition full_pages :: "nat service" where
  "full_pages n p = Page \<lparr>results = replicate 1000 0, meta_total = Some 30000, link_header = No_next\<rparr>"

theorem no_sort_degrades_witness:
  "api_search full_pages q_no_sort
     = Inr \<lparr>qr_query = Some q_no_sort, total_results = 30000,
            records = replicate 1000 (Record 0)\<rparr>
   \<and> fst (run full_pages q_no_sort) = None
   \<and> logs (events (snd (run full_pages q_no_sort))) = [Switching, No_sort]
   \<and> gets (events (snd (run full_pages q_no_sort)))
        = [(Skip_limit, build_params q_no_sort (Some 1000) (Some 24000))]
   \<and> sent (snd (run full_pages q_no_sort)) = 1"
proof -
  let ?p = "build_params q_no_sort (Some 1000) (Some 24000)"
  let ?s = "\<lparr>query = q_no_sort, user_skip = 24000, all_results = replicate 1000 (Record (0::nat)),
             current_skip = 25000, remaining = Finite 1000, total_available = Some 30000,
             params = ?p, sent = 1,
             events = [Acquire_minute, Acquire_day, Get Skip_limit ?p]\<rparr>"
  have st: "(start q_no_sort :: nat pstate)
        = \<lparr>query = q_no_sort, user_skip = 24000, all_results = [],
             current_skip = 24000, remaining = Finite 2000, total_available = None,
             params = [], sent = 0, events = []\<rparr>"
    by (simp add: start_def q_no_sort_def)
  have step: "skip_limit_step full_pages (start q_no_sort) = Continue ?s"
    unfolding st
    by (simp add: skip_limit_step_def skip_limit_fetch_def session_get_def emit_def
          call_build_params_def full_pages_def Let_def)
  have "skip_limit_loop full_pages (start q_no_sort) = skip_limit_loop full_pages ?s"
    by (subst skip_limit_loop.simps) (simp add: step, simp add: st)
  also have "\<dots> = (None, ?s)"
    by (subst skip_limit_loop.simps) simp
  finally have loop: "skip_limit_loop full_pages (start q_no_sort) = (None, ?s)" .
  have "\<not> truthy (q_sort q_no_sort)" by (simp add: q_no_sort_def)
  from no_sort_degrades [OF loop _ _ _ _ this, of 30000] show ?thesis
    by simp
qed

subsection \<open>A data set of 1500 records\<close>

text \<open>
  What a request asks for, as the service reads it: the integer under \<open>limit\<close>, and
  1000 when there is none, since \<open>_build_params\<close> leaves the default out; the integer
  under \<open>skip\<close>, and 0 when there is none. A service serves in full when every
  request for a batch that lies within the data set is answered with a page of that many
  records and with the total of the data set.
\<close>

definition requested_limit :: "params \<Rightarrow> int" where
  "requested_limit p = (case dict_get p ''limit'' of Some (PInt n) \<Rightarrow> n | _ \<Rightarrow> 1000)"

definition requested_skip :: "params \<Rightarrow> int" where
  "requested_skip p = (case dict_get p ''skip'' of Some (PInt k) \<Rightarrow> k | _ \<Rightarrow> 0)"

definition serves_in_full :: "'d service \<Rightarrow> int \<Rightarrow> bool" where
  "serves_in_full service avail =
     (\<forall>n p. 0 \<le> requested_skip p \<and> 0 < requested_limit p
             \<and> requested_skip p + requested_limit p \<le> avail \<longrightarrow>
        (\<exists>data. service n p = Page data \<and> meta_total data = Some avail
                \<and> int (length (results data)) = requested_limit p))"

lemma requested_limit_build_params:
  "requested_limit (build_params q (Some b) k) = b"
  by (simp add: requested_limit_def build_params_limit)

lemma requested_skip_build_params:
  "requested_skip (build_params q l (Some k)) = (if k > 0 then k else 0)"
  by (simp add: requested_skip_def build_params_skip)

lemma requested_skip_build_params_None:
  "q_skip q = None \<or> q_skip q = Some 0 \<Longrightarrow> requested_skip (build_params q l None) = 0"
  by (auto simp: requested_skip_def build_params_skip)

lemma serves_in_fullD:
  assumes "serves_in_full service avail"
    and "requested_skip p = k" and "requested_limit p = b"
    and "0 \<le> k" and "0 < b" and "k + b \<le> avail"
  shows "\<exists>data. service n p = Page data \<and> meta_total data = Some avail
               \<and> length (results data) = nat b"
proof -
  from assms obtain data where "service n p = Page data" "meta_total data = Some avail"
      "int (length (results data)) = b"
    unfolding serves_in_full_def by blast
  then show ?thesis by (intro exI [of _ data]) simp
qed

lemma start_unfold:
  "start q = \<lparr>query = q,
              user_skip = (case q_skip q of None \<Rightarrow> 0 | Some k \<Rightarrow> k),
              all_results = [],
              current_skip = (case q_skip q of None \<Rightarrow> 0 | Some k \<Rightarrow> k),
              remaining = (case q_limit q of
                             None \<Rightarrow> Finite 1000
                           | Some l \<Rightarrow> if l = 0 then Finite 1000
                                       else if l = - 1 then Infinite else Finite l),
              total_available = None, params = [], sent = 0, events = []\<rparr>"
  by (auto simp: start_def Let_def split: option.splits)

text \<open>
  Claim C5. For a query with skip 0 or none and a limit of at least 1500 or \<open>-1\<close>,
  against a service that reports 1500 records and serves every batch in full, the run
  sends exactly two requests, both in the first loop: one for 1000 records at offset 0,
  answered with 1000 records, and one for 500 records at offset 1000, answered with 500;
  it returns these 1500 records.
\<close>

theorem two_fetches_for_1500:
  fixes service :: "'d service"
  assumes skip: "q_skip q = None \<or> q_skip q = Some 0"
    and limit: "q_limit q = Some l" "l = - 1 \<or> 1500 \<le> l"
    and service: "serves_in_full service 1500"
  shows "\<exists>d0 d1 s.
           service 0 (build_params q (Some 1000) (Some 0)) = Page d0
         \<and> length (results d0) = 1000
         \<and> service 1 (build_params q (Some 500) (Some 1000)) = Page d1
         \<and> length (results d1) = 500
         \<and> run service q = (None, s)
         \<and> gets (events s) = [(Skip_limit, build_params q (Some 1000) (Some 0)),
                               (Skip_limit, build_params q (Some 500) (Some 1000))]
         \<and> sent s = 2
         \<and> api_search service q
              = Inr \<lparr>qr_query = Some q, total_results = 1500,
                     records = map Record (results d0) @ map Record (results d1)\<rparr>"
proof -
  let ?p0 = "build_params q (Some 1000) (Some 0)"
  let ?p1 = "build_params q (Some 500) (Some 1000)"
  from serves_in_fullD [OF service, of ?p0 0 1000 0]
  obtain d0 where d0: "service 0 ?p0 = Page d0" "meta_total d0 = Some 1500"
      "length (results d0) = 1000"
    by (auto simp: requested_limit_build_params requested_skip_build_params)
  from serves_in_fullD [OF service, of ?p1 1000 500 1]
  obtain d1 where d1: "service 1 ?p1 = Page d1" "meta_total d1 = Some 1500"
      "length (results d1) = 500"
    by (auto simp: requested_limit_build_params requested_skip_build_params)
  define r where "r = (if l = - 1 then Infinite else Finite l)"
  have r: "is_positive r" "min_with r 1000 = 1000" "is_positive (subtract r 1000)"
      "min (min_with (subtract r 1000) 1000) 500 = 500"
    using limit(2) by (auto simp: r_def)
  let ?s0 = "\<lparr>query = q, user_skip = 0, all_results = [], current_skip = 0, remaining = r,
              total_available = None, params = [], sent = 0, events = []\<rparr> :: 'd pstate"
  let ?e0 = "[Acquire_minute, Acquire_day, Get Skip_limit ?p0]"
  let ?s1 = "\<lparr>query = q, user_skip = 0, all_results = map Record (results d0),
              current_skip = 1000, remaining = subtract r 1000,
              total_available = Some 1500, params = ?p0, sent = Suc 0, events = ?e0\<rparr>"
  let ?s2 = "\<lparr>query = q, user_skip = 0,
              all_results = map Record (results d0) @ map Record (results d1),
              current_skip = 1000, remaining = subtract r 1000,
              total_available = Some 1500, params = ?p1, sent = 2,
              events = ?e0 @ [Acquire_minute, Acquire_day, Get Skip_limit ?p1, Log Retrieved_all]\<rparr>"
  have st: "start q = ?s0"
    using skip limit by (auto simp: start_unfold r_def)
  have ne0: "results d0 \<noteq> []" and ne1: "results d1 \<noteq> []"
    using d0(3) d1(3) by auto
  have step0: "skip_limit_step service ?s0 = Continue ?s1"
    using d0 r ne0
    by (simp add: skip_limit_step_def skip_limit_fetch_def session_get_def emit_def
          call_build_params_def Let_def)
  have step1: "skip_limit_step service ?s1 = Break ?s2"
    using d0(3) d1 r ne1
    by (simp add: skip_limit_step_def skip_limit_fetch_def session_get_def emit_def
          call_build_params_def Let_def)
  have "skip_limit_loop service ?s0 = skip_limit_loop service ?s1"
    using r(1) by (subst skip_limit_loop.simps) (simp add: step0)
  also have "\<dots> = (None, ?s2)"
    using r(3) by (subst skip_limit_loop.simps) (simp add: step1)
  finally have loop: "skip_limit_loop service (start q) = (None, ?s2)"
    by (simp add: st)
  have run: "run service q = (None, ?s2)"
    by (simp add: run_def loop search_after_phase_def)
  have "api_search service q
          = Inr \<lparr>qr_query = Some q, total_results = 1500,
                 records = map Record (results d0) @ map Record (results d1)\<rparr>"
    by (simp add: api_search_def run)
  with d0 d1 run show ?thesis
    by (intro exI [of _ d0] exI [of _ d1] exI [of _ ?s2]) simp
qed

definition q_1500 :: query where
  "q_1500 = \<lparr>q_ENDPOINT_PATH = ''/drug/event.json'', q_search = Some ''serious:1'',
      q_sort = None, q_count = None, q_limit = Some 5000, q_skip = None\<rparr>"

definition service_1500 :: "nat service" where
  "service_1500 n p =
     Page \<lparr>results = replicate (nat (min (requested_limit p) (1500 - requested_skip p))) 0,
           meta_total = Some 1500, link_header = No_next\<rparr>"

theorem two_fetches_for_1500_witness:
  "\<exists>d0 d1 s.
       service_1500 0 (build_params q_1500 (Some 1000) (Some 0)) = Page d0
     \<and> length (results d0) = 1000
     \<and> service_1500 1 (build_params q_1500 (Some 500) (Some 1000)) = Page d1
     \<and> length (results d1) = 500
     \<and> run service_1500 q_1500 = (None, s)
     \<and> gets (events s) = [(Skip_limit, build_params q_1500 (Some 1000) (Some 0)),
                           (Skip_limit, build_params q_1500 (Some 500) (Some 1000))]
     \<and> sent s = 2
     \<and> api_search service_1500 q_1500
          = Inr \<lparr>qr_query = Some q_1500, total_results = 1500,
                 records = map Record (results d0) @ map Record (results d1)\<rparr>"
proof -
  have "serves_in_full service_1500 1500"
    by (auto simp: serves_in_full_def service_1500_def)
  moreover have "q_skip q_1500 = None \<or> q_skip q_1500 = Some 0"
    and "q_limit q_1500 = Some 5000"
    by (simp_all add: q_1500_def)
  ultimately show ?thesis
    using two_fetches_for_1500 [of q_1500 5000 service_1500] by simp
qed

subsection \<open>A request that fails\<close>

text \<open>The response the service gave to request \<open>n\<close> of a state.\<close>

definition answer :: "'d service \<Rightarrow> 'd pstate \<Rightarrow> nat \<Rightarrow> 'd response" where
  "answer service s n = service n (snd (gets (events s) ! n))"

fun is_page :: "'d response \<Rightarrow> bool" where
  "is_page (Page data) = True"
| "is_page (Failure f) = False"

text \<open>Every request so far was answered with a page.\<close>

definition all_pages :: "'d service \<Rightarrow> 'd pstate \<Rightarrow> bool" where
  "all_pages service s =
     (length (gets (events s)) = sent s \<and> (\<forall>n < sent s. is_page (answer service s n)))"

text \<open>The last request failed with \<open>f\<close>, the ones before were answered with a page.\<close>

definition failed_last :: "'d service \<Rightarrow> failure \<Rightarrow> 'd pstate \<Rightarrow> bool" where
  "failed_last service f s =
     (length (gets (events s)) = sent s \<and> 0 < sent s
      \<and> (\<forall>n < sent s - 1. is_page (answer service s n))
      \<and> answer service s (sent s - 1) = Failure f)"

fun step_ok :: "'d service \<Rightarrow> 'd step \<Rightarrow> bool" where
  "step_ok service (Continue s) = all_pages service s"
| "step_ok service (Break s) = all_pages service s"
| "step_ok service (Raise e s) =
     ((e = TypeError \<and> all_pages service s) \<or> (\<exists>f. e = raised f \<and> failed_last service f s))"

fun outcome_ok :: "'d service \<Rightarrow> error option \<times> 'd pstate \<Rightarrow> bool" where
  "outcome_ok service (None, s) = all_pages service s"
| "outcome_ok service (Some e, s) =
     ((e = TypeError \<and> all_pages service s) \<or> (\<exists>f. e = raised f \<and> failed_last service f s))"

lemma all_pages_log [simp]: "all_pages service (emit [Log m] s) = all_pages service s"
  by (simp add: all_pages_def emit_def gets_append answer_def)

lemma failed_last_log [simp]: "failed_last service f (emit [Log m] s) = failed_last service f s"
  by (simp add: failed_last_def emit_def gets_append answer_def)

lemma all_pages_frame [simp]:
  "all_pages service (s\<lparr>total_available := t\<rparr>) = all_pages service s"
  "all_pages service (s\<lparr>all_results := rs\<rparr>) = all_pages service s"
  "all_pages service (s\<lparr>remaining := r\<rparr>) = all_pages service s"
  "all_pages service (s\<lparr>current_skip := k\<rparr>) = all_pages service s"
  "all_pages service (s\<lparr>params := p\<rparr>) = all_pages service s"
  by (simp_all add: all_pages_def answer_def)

lemma session_get_page:
  assumes "all_pages service s" and "session_get service m s = (Page data, s')"
  shows "all_pages service s'"
proof -
  from assms(2) have s': "s' = emit [Acquire_minute, Acquire_day, Get m (params s)] (s\<lparr>sent := Suc (sent s)\<rparr>)"
    and ans: "service (sent s) (params s) = Page data"
    by (simp_all add: session_get_def)
  from assms(1) have len: "length (gets (events s)) = sent s"
    and old: "\<And>n. n < sent s \<Longrightarrow> is_page (service n (snd (gets (events s) ! n)))"
    by (simp_all add: all_pages_def answer_def)
  have "is_page (service n (snd ((gets (events s) @ [(m, params s)]) ! n)))" if "n < Suc (sent s)" for n
  proof (cases "n < sent s")
    case True
    with old [OF True] len show ?thesis by (simp add: nth_append)
  next
    case False
    with that have "n = sent s" by simp
    with len ans show ?thesis by (simp add: nth_append)
  qed
  with len show ?thesis
    by (simp add: s' all_pages_def answer_def emit_def gets_append)
qed

lemma session_get_failure:
  assumes "all_pages service s" and "session_get service m s = (Failure f, s')"
  shows "failed_last service f s'"
proof -
  from assms(2) have s': "s' = emit [Acquire_minute, Acquire_day, Get m (params s)] (s\<lparr>sent := Suc (sent s)\<rparr>)"
    and ans: "service (sent s) (params s) = Failure f"
    by (simp_all add: session_get_def)
  from assms(1) have len: "length (gets (events s)) = sent s"
    and old: "\<And>n. n < sent s \<Longrightarrow> is_page (service n (snd (gets (events s) ! n)))"
    by (simp_all add: all_pages_def answer_def)
  from len old ans show ?thesis
    by (simp add: s' failed_last_def answer_def emit_def gets_append nth_append)
qed

lemma skip_limit_fetch_ok:
  assumes "all_pages service s"
  shows "step_ok service (skip_limit_fetch service b s)"
proof -
  let ?s = "call_build_params (Some b) (Some (current_skip s)) s"
  have ap: "all_pages service ?s"
    using assms by (simp add: call_build_params_def)
  obtain resp s' where g: "session_get service Skip_limit ?s = (resp, s')"
    by (cases "session_get service Skip_limit ?s")
  show ?thesis
  proof (cases resp)
    case (Failure f)
    with session_get_failure [OF ap] g have "failed_last service f s'" by simp
    with g Failure show ?thesis
      by (auto simp: skip_limit_fetch_def Let_def)
  next
    case (Page data)
    with session_get_page [OF ap] g have "all_pages service s'" by simp
    with g Page show ?thesis
      by (simp add: skip_limit_fetch_def Let_def)
  qed
qed

lemma skip_limit_step_ok:
  "all_pages service s \<Longrightarrow> step_ok service (skip_limit_step service s)"
  by (simp add: skip_limit_step_def skip_limit_fetch_ok Let_def split: option.splits)

lemma search_after_step_ok:
  assumes "all_pages service s"
  shows "step_ok service (search_after_step service s)"
proof -
  obtain resp s' where g: "session_get service Search_after s = (resp, s')"
    by (cases "session_get service Search_after s")
  show ?thesis
  proof (cases resp)
    case (Failure f)
    with session_get_failure [OF assms] g have "failed_last service f s'" by simp
    with g Failure show ?thesis
      by (auto simp: search_after_step_def Let_def)
  next
    case (Page data)
    with session_get_page [OF assms] g have "all_pages service s'" by simp
    with g Page show ?thesis
      by (simp add: search_after_step_def Let_def split: option.splits next_link.splits)
  qed
qed

lemma skip_limit_loop_ok:
  "all_pages service s \<Longrightarrow> outcome_ok service (skip_limit_loop service s)"
proof (induction service s rule: skip_limit_loop.induct)
  case (1 service s)
  from skip_limit_step_ok [OF "1.prems"] have ok: "step_ok service (skip_limit_step service s)" .
  show ?case
  proof (cases "is_positive (remaining s) \<and> current_skip s < 25000")
    case False
    with "1.prems" show ?thesis
      by (subst skip_limit_loop.simps) auto
  next
    case True
    show ?thesis
    proof (cases "skip_limit_step service s")
      case (Continue s')
      with ok have "all_pages service s'" by simp
      from "1.IH" [OF True Continue this] True Continue show ?thesis
        by (subst skip_limit_loop.simps) simp
    next
      case (Break s')
      with ok True show ?thesis
        by (subst skip_limit_loop.simps) simp
    next
      case (Raise e s')
      with ok True show ?thesis
        by (subst skip_limit_loop.simps) simp
    qed
  qed
qed

lemma search_after_loop_ok:
  "all_pages service s \<Longrightarrow> outcome_ok service (search_after_loop service s)"
proof (induction service s rule: search_after_loop.induct)
  case (1 service s)
  from search_after_step_ok [OF "1.prems"] have ok: "step_ok service (search_after_step service s)" .
  show ?case
  proof (cases "is_positive (remaining s)")
    case False
    with "1.prems" show ?thesis
      by (subst search_after_loop.simps) simp
  next
    case True
    show ?thesis
    proof (cases "search_after_step service s")
      case (Continue s')
      with ok have "all_pages service s'" by simp
      from "1.IH" [OF True Continue this] True Continue show ?thesis
        by (subst search_after_loop.simps) simp
    next
      case (Break s')
      with ok True show ?thesis
        by (subst search_after_loop.simps) simp
    next
      case (Raise e s')
      with ok True show ?thesis
        by (subst search_after_loop.simps) simp
    qed
  qed
qed

lemma search_after_phase_ok:
  "all_pages service s \<Longrightarrow> outcome_ok service (search_after_phase service s)"
  by (simp add: search_after_phase_def search_after_loop_ok call_build_params_def Let_def
      split: option.splits)

lemma start_all_pages: "all_pages service (start q)"
  by (simp add: all_pages_def start_def Let_def)

lemma run_ok: "outcome_ok service (run service q)"
proof (cases "skip_limit_loop service (start q)")
  case (Pair r s)
  with skip_limit_loop_ok [OF start_all_pages, of service q]
  have ok: "outcome_ok service (r, s)" by simp
  show ?thesis
  proof (cases r)
    case None
    with ok Pair search_after_phase_ok [of service s] show ?thesis
      by (simp add: run_def)
  next
    case (Some e)
    with ok Pair show ?thesis by (simp add: run_def)
  qed
qed

text \<open>
  Claim C6. If the service answers request \<open>n\<close> of a run with a failure, then
  \<open>api_search\<close> raises the error of that failure (\<open>RequestException\<close> for a
  transport failure, \<open>HTTPError\<close> for a status outside 2xx) and returns no result;
  request \<open>n\<close> is the last one sent, so nothing is retried.
\<close>

theorem failure_propagates:
  fixes service :: "'d service"
  assumes "run service q = (r, s)"
    and "n < sent s"
    and "answer service s n = Failure f"
  shows "api_search service q = Inl (raised f) \<and> sent s = Suc n
         \<and> length (gets (events s)) = Suc n"
proof -
  from run_ok [of service q] assms(1) have ok: "outcome_ok service (r, s)" by simp
  have no: "\<not> all_pages service s"
    using assms(2,3) by (auto simp: all_pages_def)
  from ok no obtain e f' where r: "r = Some e" "e = raised f'" and fl: "failed_last service f' s"
    by (cases r) auto
  from fl have len: "length (gets (events s)) = sent s" and pos: "0 < sent s"
    and before: "\<And>k. k < sent s - 1 \<Longrightarrow> is_page (answer service s k)"
    and last: "answer service s (sent s - 1) = Failure f'"
    by (simp_all add: failed_last_def)
  have "\<not> n < sent s - 1"
    using before [of n] assms(3) by auto
  with assms(2) have n: "n = sent s - 1" by simp
  with last assms(3) have "f' = f" by simp
  with r assms(1) n pos len show ?thesis
    by (simp add: api_search_def)
qed

definition q_fail :: query where
  "q_fail = \<lparr>q_ENDPOINT_PATH = ''/drug/event.json'', q_search = Some ''serious:1'',
      q_sort = None, q_count = None, q_limit = Some 5000, q_skip = None\<rparr>"

definition service_fail :: "nat service" where
  "service_fail n p =
     (if n = 0 then Page \<lparr>results = replicate 1000 0, meta_total = Some 30000,
                           link_header = No_next\<rparr>
      else Failure Status)"

theorem failure_propagates_witness:
  "api_search service_fail q_fail = Inl HTTPError"
proof -
  let ?p0 = "build_params q_fail (Some 1000) (Some 0)"
  let ?p1 = "build_params q_fail (Some 1000) (Some 1000)"
  let ?e0 = "[Acquire_minute, Acquire_day, Get Skip_limit ?p0]"
  let ?s0 = "\<lparr>query = q_fail, user_skip = 0, all_results = [], current_skip = 0,
              remaining = Finite 5000, total_available = None, params = [], sent = 0,
              events = []\<rparr> :: nat pstate"
  let ?s1 = "\<lparr>query = q_fail, user_skip = 0, all_results = replicate 1000 (Record (0::nat)),
              current_skip = 1000, remaining = Finite 4000, total_available = Some 30000,
              params = ?p0, sent = Suc 0, events = ?e0\<rparr>"
  let ?s2 = "\<lparr>query = q_fail, user_skip = 0, all_results = replicate 1000 (Record (0::nat)),
              current_skip = 1000, remaining = Finite 4000, total_available = Some 30000,
              params = ?p1, sent = Suc (Suc 0),
              events = ?e0 @ [Acquire_minute, Acquire_day, Get Skip_limit ?p1, Log API_error]\<rparr>"
  have st: "start q_fail = ?s0"
    by (simp add: start_unfold q_fail_def)
  have step0: "skip_limit_step service_fail ?s0 = Continue ?s1"
    by (simp add: skip_limit_step_def skip_limit_fetch_def session_get_def emit_def
          call_build_params_def service_fail_def Let_def)
  have step1: "skip_limit_step service_fail ?s1 = Raise HTTPError ?s2"
    by (simp add: skip_limit_step_def skip_limit_fetch_def session_get_def emit_def
          call_build_params_def service_fail_def Let_def)
  have "skip_limit_loop service_fail ?s0 = skip_limit_loop service_fail ?s1"
    by (subst skip_limit_loop.simps) (simp add: step0)
  also have "\<dots> = (Some HTTPError, ?s2)"
    by (subst skip_limit_loop.simps) (simp add: step1)
  finally have run: "run service_fail q_fail = (Some HTTPError, ?s2)"
    by (simp add: run_def st)
  have "answer service_fail ?s2 1 = Failure Status"
    by (simp add: answer_def service_fail_def)
  from failure_propagates [OF run _ this] show ?thesis
    by simp
qed

subsection \<open>The records of a run\<close>

text \<open>
  The records of a response, and the records of all responses of a run so far, in the
  order of the requests. \<open>in_order\<close>: the records held are exactly these.
\<close>

fun records_of :: "'d response \<Rightarrow> 'd fda_record list" where
  "records_of (Page data) = map Record (results data)"
| "records_of (Failure f) = []"

definition received :: "'d service \<Rightarrow> 'd pstate \<Rightarrow> 'd fda_record list" where
  "received service s = concat (map (\<lambda>n. records_of (answer service s n)) [0..<sent s])"

definition in_order :: "'d service \<Rightarrow> 'd pstate \<Rightarrow> bool" where
  "in_order service s =
     (length (gets (events s)) = sent s \<and> all_results s = received service s)"

lemma in_order_log [simp]: "in_order service (emit [Log m] s) = in_order service s"
  by (simp add: in_order_def received_def emit_def gets_append answer_def)

lemma in_order_frame [simp]:
  "in_order service (s\<lparr>total_available := t\<rparr>) = in_order service s"
  "in_order service (s\<lparr>remaining := r\<rparr>) = in_order service s"
  "in_order service (s\<lparr>current_skip := k\<rparr>) = in_order service s"
  "in_order service (s\<lparr>params := p\<rparr>) = in_order service s"
  by (simp_all add: in_order_def received_def answer_def)

lemma session_get_in_order:
  assumes "in_order service s" and "session_get service m s = (resp, s')"
  shows "in_order service (s'\<lparr>all_results := all_results s' @ records_of resp\<rparr>)"
proof -
  from assms(2) have s': "s' = emit [Acquire_minute, Acquire_day, Get m (params s)] (s\<lparr>sent := Suc (sent s)\<rparr>)"
    and resp: "resp = service (sent s) (params s)"
    by (simp_all add: session_get_def)
  from assms(1) have len: "length (gets (events s)) = sent s"
    and old: "all_results s = received service s"
    by (simp_all add: in_order_def)
  let ?g = "gets (events s) @ [(m, params s)]"
  have before: "map (\<lambda>n. records_of (service n (snd (?g ! n)))) [0..<sent s]
        = map (\<lambda>n. records_of (service n (snd (gets (events s) ! n)))) [0..<sent s]"
    using len by (intro map_cong) (simp_all add: nth_append)
  have last: "?g ! sent s = (m, params s)"
    using len by (simp add: nth_append)
  have "received service (s'\<lparr>all_results := all_results s' @ records_of resp\<rparr>)
          = received service s @ records_of resp"
    by (simp add: s' received_def answer_def emit_def gets_append before last resp)
  with len old show ?thesis
    by (simp add: in_order_def) (simp add: s' emit_def gets_append)
qed

lemma skip_limit_fetch_in_order:
  assumes "in_order service s"
  shows "in_order service (state_of (skip_limit_fetch service b s))"
proof -
  let ?s = "call_build_params (Some b) (Some (current_skip s)) s"
  have io: "in_order service ?s"
    using assms by (simp add: call_build_params_def)
  obtain resp s' where g: "session_get service Skip_limit ?s = (resp, s')"
    by (cases "session_get service Skip_limit ?s")
  from session_get_in_order [OF io g]
  have "in_order service (s'\<lparr>all_results := all_results s' @ records_of resp\<rparr>)" .
  with g show ?thesis
    by (cases resp)
       (auto simp: skip_limit_fetch_def Let_def in_order_def received_def answer_def emit_def
          gets_append)
qed

lemma skip_limit_step_in_order:
  "in_order service s \<Longrightarrow> in_order service (state_of (skip_limit_step service s))"
  by (simp add: skip_limit_step_def skip_limit_fetch_in_order Let_def split: option.splits)

lemma search_after_step_in_order:
  assumes "in_order service s"
  shows "in_order service (state_of (search_after_step service s))"
proof -
  obtain resp s' where g: "session_get service Search_after s = (resp, s')"
    by (cases "session_get service Search_after s")
  from session_get_in_order [OF assms g]
  have "in_order service (s'\<lparr>all_results := all_results s' @ records_of resp\<rparr>)" .
  with g show ?thesis
    by (cases resp)
       (auto simp: search_after_step_def Let_def in_order_def received_def answer_def emit_def
          gets_append split: option.splits next_link.splits)
qed

lemma skip_limit_loop_in_order:
  "in_order service s \<Longrightarrow> in_order service (snd (skip_limit_loop service s))"
proof (induction service s rule: skip_limit_loop.induct)
  case (1 service s)
  from skip_limit_step_in_order [OF "1.prems"]
  have ok: "in_order service (state_of (skip_limit_step service s))" .
  show ?case
  proof (cases "is_positive (remaining s) \<and> current_skip s < 25000")
    case False
    with "1.prems" show ?thesis
      by (subst skip_limit_loop.simps) auto
  next
    case True
    show ?thesis
    proof (cases "skip_limit_step service s")
      case (Continue s')
      with ok have "in_order service s'" by simp
      from "1.IH" [OF True Continue this] True Continue show ?thesis
        by (subst skip_limit_loop.simps) simp
    next
      case (Break s')
      with ok True show ?thesis
        by (subst skip_limit_loop.simps) simp
    next
      case (Raise e s')
      with ok True show ?thesis
        by (subst skip_limit_loop.simps) simp
    qed
  qed
qed

lemma search_after_loop_in_order:
  "in_order service s \<Longrightarrow> in_order service (snd (search_after_loop service s))"
proof (induction service s rule: search_after_loop.induct)
  case (1 service s)
  from search_after_step_in_order [OF "1.prems"]
  have ok: "in_order service (state_of (search_after_step service s))" .
  show ?case
  proof (cases "is_positive (remaining s)")
    case False
    with "1.prems" show ?thesis
      by (subst search_after_loop.simps) simp
  next
    case True
    show ?thesis
    proof (cases "search_after_step service s")
      case (Continue s')
      with ok have "in_order service s'" by simp
      from "1.IH" [OF True Continue this] True Continue show ?thesis
        by (subst search_after_loop.simps) simp
    next
      case (Break s')
      with ok True show ?thesis
        by (subst search_after_loop.simps) simp
    next
      case (Raise e s')
      with ok True show ?thesis
        by (subst search_after_loop.simps) simp
    qed
  qed
qed

lemma search_after_phase_in_order:
  "in_order service s \<Longrightarrow> in_order service (snd (search_after_phase service s))"
  by (simp add: search_after_phase_def search_after_loop_in_order call_build_params_def Let_def
      split: option.splits)

text \<open>
  Whatever the service does, the records a run holds at its end are the records of the
  pages it received, in the order received, each page once.
\<close>

lemma run_in_order: "in_order service (snd (run service q))"
proof (cases "skip_limit_loop service (start q)")
  case (Pair r s)
  have "in_order service (start q)"
    by (simp add: in_order_def received_def start_def Let_def)
  from skip_limit_loop_in_order [OF this] Pair have "in_order service s" by simp
  with Pair search_after_phase_in_order [of service s] show ?thesis
    by (cases r) (simp_all add: run_def)
qed

subsection \<open>A data set of 30000 records, fetched without a limit\<close>

text \<open>
  The service supplies a next link, for the same page size and the same skip, on every
  page after which records remain when pages hold 1000 records.
\<close>

definition links_while_remaining :: "'d service \<Rightarrow> int \<Rightarrow> bool" where
  "links_while_remaining service avail =
     (\<forall>n p data. service n p = Page data \<and> 1000 * (int n + 1) < avail \<longrightarrow>
        (\<exists>p'. link_header data = Next p' \<and> requested_limit p' = requested_limit p
               \<and> requested_skip p' = requested_skip p))"

text \<open>
  The request of the \<open>i\<close>-th iteration of the first loop, and the first request of the
  second loop, when every batch is 1000 records.
\<close>

definition offset_request :: "query \<Rightarrow> nat \<Rightarrow> mode \<times> params" where
  "offset_request q i = (Skip_limit, build_params q (Some 1000) (Some (1000 * int i)))"

text \<open>The state before iteration \<open>k\<close> of the first loop.\<close>

definition offset_at :: "query \<Rightarrow> nat \<Rightarrow> 'd pstate \<Rightarrow> bool" where
  "offset_at q k s =
     (query s = q \<and> user_skip s = 0 \<and> current_skip s = 1000 * int k
      \<and> length (all_results s) = 1000 * k \<and> remaining s = Infinite
      \<and> total_available s = (if k = 0 then None else Some 30000)
      \<and> sent s = k
      \<and> gets (events s) = map (offset_request q) [0..<k]
      \<and> logs (events s) = [])"

lemma offset_step:
  fixes service :: "'d service"
  assumes full: "serves_in_full service 30000"
    and inv: "offset_at q k s" and k: "k < 25"
  shows "\<exists>s'. skip_limit_step service s = Continue s' \<and> offset_at q (Suc k) s'"
proof -
  let ?p = "build_params q (Some 1000) (Some (1000 * int k))"
  have "requested_skip ?p = 1000 * int k"
    by (simp add: requested_skip_build_params)
  from serves_in_fullD [OF full this requested_limit_build_params, of k] k
  obtain data where data: "service k ?p = Page data" "meta_total data = Some 30000"
      "length (results data) = 1000"
    by auto
  from data(3) have ne: "results data \<noteq> []" by auto
  from inv have f: "query s = q" "user_skip s = 0" "current_skip s = 1000 * int k"
      "length (all_results s) = 1000 * k" "remaining s = Infinite"
      "total_available s = (if k = 0 then None else Some 30000)" "sent s = k"
      "gets (events s) = map (offset_request q) [0..<k]" "logs (events s) = []"
    by (simp_all add: offset_at_def)
  let ?s' = "s\<lparr>params := ?p, sent := Suc k,
               events := events s @ [Acquire_minute, Acquire_day, Get Skip_limit ?p],
               total_available := Some 30000,
               all_results := all_results s @ map Record (results data),
               remaining := Infinite,
               current_skip := 1000 * int k + 1000\<rparr>"
  have fetch: "skip_limit_fetch service 1000 s = Continue ?s'"
    using data ne f k
    by (simp add: skip_limit_fetch_def session_get_def emit_def call_build_params_def Let_def)
  have "skip_limit_step service s = Continue ?s'"
    using f k by (simp add: skip_limit_step_def fetch Let_def)
  moreover have "offset_at q (Suc k) ?s'"
    using f data(3) by (simp add: offset_at_def gets_append logs_append offset_request_def)
  ultimately show ?thesis by blast
qed

lemma offset_loop:
  fixes service :: "'d service"
  assumes full: "serves_in_full service 30000"
  shows "offset_at q k s \<Longrightarrow> k = 25 - n \<Longrightarrow> n \<le> 25 \<Longrightarrow>
         \<exists>s'. skip_limit_loop service s = (None, s') \<and> offset_at q 25 s'"
proof (induction n arbitrary: k s)
  case 0
  then have "current_skip s = 25000" and "offset_at q 25 s"
    by (simp_all add: offset_at_def)
  then show ?case
    by (subst skip_limit_loop.simps) simp
next
  case (Suc n)
  then have k: "k < 25" by simp
  from offset_step [OF full Suc.prems(1) k]
  obtain s1 where s1: "skip_limit_step service s = Continue s1" "offset_at q (Suc k) s1"
    by blast
  from Suc.prems have "Suc k = 25 - n" "n \<le> 25" by simp_all
  from Suc.IH [OF s1(2) this]
  obtain s' where s': "skip_limit_loop service s1 = (None, s')" "offset_at q 25 s'"
    by blast
  from Suc.prems(1) k have "is_positive (remaining s)" "current_skip s < 25000"
    by (simp_all add: offset_at_def)
  with s1(1) s' show ?case
    by (subst skip_limit_loop.simps) simp
qed

definition first_cursor_request :: "query \<Rightarrow> mode \<times> params" where
  "first_cursor_request q = (Search_after, build_params q (Some 1000) None)"

text \<open>
  The state before iteration \<open>j\<close> of the second loop, and the state in which the
  run ends.
\<close>

definition cursor_at :: "query \<Rightarrow> nat \<Rightarrow> 'd pstate \<Rightarrow> bool" where
  "cursor_at q j s =
     (query s = q \<and> current_skip s = 25000
      \<and> length (all_results s) = 25000 + 1000 * j \<and> remaining s = Infinite
      \<and> total_available s = Some 30000
      \<and> sent s = 25 + j
      \<and> requested_limit (params s) = 1000 \<and> requested_skip (params s) = 0
      \<and> take 25 (gets (events s)) = map (offset_request q) [0..<25]
      \<and> map fst (gets (events s)) = replicate 25 Skip_limit @ replicate j Search_after
      \<and> (if j = 0 then (Search_after, params s) else gets (events s) ! 25)
            = first_cursor_request q
      \<and> logs (events s) = [Switching])"

definition finished_at :: "query \<Rightarrow> 'd pstate \<Rightarrow> bool" where
  "finished_at q s =
     (query s = q \<and> current_skip s = 25000
      \<and> length (all_results s) = 30000
      \<and> total_available s = Some 30000
      \<and> sent s = 30
      \<and> take 25 (gets (events s)) = map (offset_request q) [0..<25]
      \<and> map fst (gets (events s)) = replicate 25 Skip_limit @ replicate 5 Search_after
      \<and> gets (events s) ! 25 = first_cursor_request q
      \<and> logs (events s) = [Switching, Retrieved_all])"

lemma cursor_page:
  fixes service :: "'d service"
  assumes full: "serves_in_full service 30000"
    and inv: "cursor_at q j s"
  shows "\<exists>data. service (25 + j) (params s) = Page data \<and> length (results data) = 1000"
proof -
  from inv have "requested_skip (params s) = 0" "requested_limit (params s) = 1000"
    by (simp_all add: cursor_at_def)
  from serves_in_fullD [OF full this, of "25 + j"] show ?thesis
    by auto
qed

lemma cursor_step:
  fixes service :: "'d service"
  assumes full: "serves_in_full service 30000"
    and links: "links_while_remaining service 30000"
    and inv: "cursor_at q j s" and j: "j < 4"
  shows "\<exists>s'. search_after_step service s = Continue s' \<and> cursor_at q (Suc j) s'"
proof -
  from cursor_page [OF full inv]
  obtain data where data: "service (25 + j) (params s) = Page data" "length (results data) = 1000"
    by blast
  from data(2) have ne: "results data \<noteq> []" by auto
  from inv have f: "query s = q" "current_skip s = 25000"
      "length (all_results s) = 25000 + 1000 * j" "remaining s = Infinite"
      "total_available s = Some 30000" "sent s = 25 + j" "requested_limit (params s) = 1000"
      "requested_skip (params s) = 0"
      "take 25 (gets (events s)) = map (offset_request q) [0..<25]"
      "map fst (gets (events s)) = replicate 25 Skip_limit @ replicate j Search_after"
      "(if j = 0 then (Search_after, params s) else gets (events s) ! 25)
         = first_cursor_request q"
      "logs (events s) = [Switching]"
    by (simp_all add: cursor_at_def)
  from arg_cong [OF f(10), of length] have len: "length (gets (events s)) = 25 + j"
    by simp
  from links data(1) j obtain p' where p': "link_header data = Next p'"
      "requested_limit p' = requested_limit (params s)"
      "requested_skip p' = requested_skip (params s)"
    unfolding links_while_remaining_def by fastforce
  let ?s' = "s\<lparr>sent := Suc (25 + j),
               events := events s @ [Acquire_minute, Acquire_day, Get Search_after (params s)],
               all_results := all_results s @ map Record (results data),
               remaining := Infinite,
               params := p'\<rparr>"
  have "search_after_step service s = Continue ?s'"
    using data ne f j p'
    by (simp add: search_after_step_def session_get_def emit_def Let_def)
  moreover have "cursor_at q (Suc j) ?s'"
    using f data(2) p' len
    by (cases "j = 0")
       (simp_all add: cursor_at_def gets_append logs_append nth_append replicate_append_same
          first_cursor_request_def)
  ultimately show ?thesis by blast
qed

lemma cursor_last_step:
  fixes service :: "'d service"
  assumes full: "serves_in_full service 30000"
    and inv: "cursor_at q 4 s"
  shows "\<exists>s'. search_after_step service s = Break s' \<and> finished_at q s'"
proof -
  from cursor_page [OF full inv]
  obtain data where data: "service 29 (params s) = Page data" "length (results data) = 1000"
    by auto
  from data(2) have ne: "results data \<noteq> []" by auto
  from inv have f: "query s = q" "current_skip s = 25000"
      "length (all_results s) = 29000" "remaining s = Infinite"
      "total_available s = Some 30000" "sent s = 29"
      "take 25 (gets (events s)) = map (offset_request q) [0..<25]"
      "map fst (gets (events s)) = replicate 25 Skip_limit @ replicate 4 Search_after"
      "gets (events s) ! 25 = first_cursor_request q"
      "logs (events s) = [Switching]"
    by (simp_all add: cursor_at_def)
  from arg_cong [OF f(8), of length] have len: "length (gets (events s)) = 29"
    by simp
  let ?s' = "s\<lparr>sent := 30,
               events := events s @ [Acquire_minute, Acquire_day, Get Search_after (params s),
                                     Log Retrieved_all],
               all_results := all_results s @ map Record (results data),
               remaining := Infinite\<rparr>"
  have rep: "replicate 5 Search_after = Search_after # replicate 4 Search_after"
    by (simp add: numeral_eq_Suc)
  have "search_after_step service s = Break ?s'"
    using data ne f
    by (simp add: search_after_step_def session_get_def emit_def Let_def)
  moreover have "finished_at q ?s'"
    using f data(2) len rep
    by (simp add: finished_at_def gets_append logs_append nth_append replicate_append_same)
  ultimately show ?thesis by blast
qed

lemma cursor_loop:
  fixes service :: "'d service"
  assumes full: "serves_in_full service 30000"
    and links: "links_while_remaining service 30000"
  shows "cursor_at q j s \<Longrightarrow> j = 4 - n \<Longrightarrow> n \<le> 4 \<Longrightarrow>
         \<exists>s'. search_after_loop service s = (None, s') \<and> finished_at q s'"
proof (induction n arbitrary: j s)
  case 0
  then have inv: "cursor_at q 4 s" by simp
  from cursor_last_step [OF full inv]
  obtain s' where "search_after_step service s = Break s'" "finished_at q s'" by blast
  moreover from inv have "is_positive (remaining s)" by (simp add: cursor_at_def)
  ultimately show ?case
    by (subst search_after_loop.simps) simp
next
  case (Suc n)
  then have j: "j < 4" by simp
  from cursor_step [OF full links Suc.prems(1) j]
  obtain s1 where s1: "search_after_step service s = Continue s1" "cursor_at q (Suc j) s1"
    by blast
  from Suc.prems have "Suc j = 4 - n" "n \<le> 4" by simp_all
  from Suc.IH [OF s1(2) this]
  obtain s' where s': "search_after_loop service s1 = (None, s')" "finished_at q s'"
    by blast
  from Suc.prems(1) have "is_positive (remaining s)" by (simp add: cursor_at_def)
  with s1(1) s' show ?case
    by (subst search_after_loop.simps) simp
qed

text \<open>
  For a query with limit \<open>-1\<close>, skip 0 or none and a sort field, against a service
  that reports 30000 records, serves every batch in full and supplies a next link while
  records remain: the first loop sends 25 requests, at offsets 0, 1000, ..., 24000, and
  ends with \<open>current_skip = 25000\<close> and 25000 records; the run logs the switch
  once, then sends 5 requests in the second loop, the first of them built with no skip
  override; it ends because the count reached the total, with 30000 records: the
  records of the 30 pages, in the order received.
\<close>

lemma switches_once_at_25000:
  fixes service :: "'d service"
  assumes limit: "q_limit q = Some (- 1)"
    and skip: "q_skip q = None \<or> q_skip q = Some 0"
    and sort: "truthy (q_sort q)"
    and full: "serves_in_full service 30000"
    and links: "links_while_remaining service 30000"
  shows "\<exists>s1 s2.
           skip_limit_loop service (start q) = (None, s1)
         \<and> current_skip s1 = 25000 \<and> sent s1 = 25 \<and> length (all_results s1) = 25000
         \<and> gets (events s1) = map (offset_request q) [0..<25]
         \<and> logs (events s1) = []
         \<and> run service q = (None, s2)
         \<and> current_skip s2 = 25000 \<and> sent s2 = 30
         \<and> take 25 (gets (events s2)) = map (offset_request q) [0..<25]
         \<and> gets (events s2) ! 25 = first_cursor_request q
         \<and> map fst (gets (events s2)) = replicate 25 Skip_limit @ replicate 5 Search_after
         \<and> logs (events s2) = [Switching, Retrieved_all]
         \<and> length (all_results s2) = 30000
         \<and> all_results s2 = received service s2
         \<and> api_search service q
              = Inr \<lparr>qr_query = Some q, total_results = 30000, records = all_results s2\<rparr>"
proof -
  have "offset_at q 0 (start q :: 'd pstate)"
    using limit skip by (auto simp: offset_at_def start_unfold)
  from offset_loop [OF full this, of 25]
  obtain s1 :: "'d pstate" where s1: "skip_limit_loop service (start q) = (None, s1)"
      "offset_at q 25 s1"
    by auto
  from s1(2) have f1: "query s1 = q" "current_skip s1 = 25000" "sent s1 = 25"
      "length (all_results s1) = 25000" "remaining s1 = Infinite"
      "total_available s1 = Some 30000"
      "gets (events s1) = map (offset_request q) [0..<25]" "logs (events s1) = []"
    by (simp_all add: offset_at_def)
  let ?c = "call_build_params (Some 1000) None (emit [Log Switching] s1)"
  have "map fst (map (offset_request q) [0..<25]) = replicate 25 Skip_limit"
    by (simp add: offset_request_def comp_def map_replicate_const)
  with f1 have "cursor_at q 0 ?c"
    by (simp add: cursor_at_def call_build_params_def emit_def gets_append logs_append
          requested_limit_build_params requested_skip_build_params_None [OF skip]
          first_cursor_request_def)
  from cursor_loop [OF full links this, of 4]
  obtain s2 where s2: "search_after_loop service ?c = (None, s2)" "finished_at q s2"
    by auto
  have phase: "search_after_phase service s1 = (None, s2)"
    using f1 sort s2(1) by (simp add: search_after_phase_def emit_def call_build_params_def Let_def)
  with s1(1) have run: "run service q = (None, s2)"
    by (simp add: run_def)
  from s2(2) have f2: "query s2 = q" "current_skip s2 = 25000" "sent s2 = 30"
      "length (all_results s2) = 30000" "total_available s2 = Some 30000"
      "take 25 (gets (events s2)) = map (offset_request q) [0..<25]"
      "map fst (gets (events s2)) = replicate 25 Skip_limit @ replicate 5 Search_after"
      "gets (events s2) ! 25 = first_cursor_request q"
      "logs (events s2) = [Switching, Retrieved_all]"
    by (simp_all add: finished_at_def)
  have "api_search service q
          = Inr \<lparr>qr_query = Some q, total_results = 30000, records = all_results s2\<rparr>"
    using run f2 by (simp add: api_search_def)
  moreover from run_in_order [of service q] run have "all_results s2 = received service s2"
    by (simp add: in_order_def)
  ultimately show ?thesis
    using s1(1) f1 run f2
    by (intro exI [of _ s1] exI [of _ s2]) simp
qed

text \<open>
  For such a query the first request of the second loop has the parameters of the very
  first request: the builder leaves a skip of 0 out, and no cursor is known yet. A
  service that answers equal requests equally therefore answers it as it answered the
  first request.
\<close>

lemma first_cursor_request_repeats:
  assumes "q_skip q = None \<or> q_skip q = Some 0"
  shows "snd (first_cursor_request q) = snd (offset_request q 0)"
  using assms by (auto simp: first_cursor_request_def offset_request_def build_params_def)

lemma cursor_restarts:
  fixes service :: "'d service"
  assumes limit: "q_limit q = Some (- 1)"
    and skip: "q_skip q = None \<or> q_skip q = Some 0"
    and sort: "truthy (q_sort q)"
    and full: "serves_in_full service 30000"
    and links: "links_while_remaining service 30000"
    and same: "\<And>n m p. service n p = service m p"
  shows "\<exists>s2. run service q = (None, s2) \<and> answer service s2 25 = answer service s2 0"
proof -
  from switches_once_at_25000 [OF limit skip sort full links]
  obtain s2 :: "'d pstate" where run: "run service q = (None, s2)"
      and offs: "take 25 (gets (events s2)) = map (offset_request q) [0..<25]"
      and curs: "gets (events s2) ! 25 = first_cursor_request q"
    by blast
  from arg_cong [OF offs, of "\<lambda>xs. xs ! 0"] have "gets (events s2) ! 0 = offset_request q 0"
    by simp
  with curs first_cursor_request_repeats [OF skip] same [of 25 _ 0] run show ?thesis
    by (simp add: answer_def)
qed

definition q_all :: query where
  "q_all = \<lparr>q_ENDPOINT_PATH = ''/drug/event.json'', q_search = Some ''serious:1'',
      q_sort = Some ''receivedate:asc'', q_count = None, q_limit = Some (- 1),
      q_skip = None\<rparr>"

subsection \<open>What the second phase fetches\<close>

text \<open>
  A service that holds 30000 records, numbered from 0, and answers a request from its
  parameters alone. A request is served from the position its cursor gives, or from its
  skip when it has no cursor, up to its limit and the end of the data. While records
  remain after a page, the page links to the same request with the cursor moved behind
  the page. The cursor is the value under \<open>search_after\<close>, a token the client only
  relays; the length of the token stands for the position.
\<close>

definition cursor :: "params \<Rightarrow> int option" where
  "cursor p = (case dict_get p ''search_after'' of
                 Some (PStr token) \<Rightarrow> Some (int (length token))
               | _ \<Rightarrow> None)"

definition first_record :: "params \<Rightarrow> int" where
  "first_record p = (case cursor p of Some c \<Rightarrow> c | None \<Rightarrow> requested_skip p)"

definition with_cursor :: "nat \<Rightarrow> params \<Rightarrow> params" where
  "with_cursor n p = AList.update ''search_after'' (PStr (replicate n (CHR ''x''))) p"

definition data_set :: "nat service" where
  "data_set n p =
     (let first = first_record p;
          last = min (first + requested_limit p) 30000
      in Page \<lparr>results = [nat first..<nat last],
                meta_total = Some 30000,
                link_header = (if last < 30000 then Next (with_cursor (nat last) p)
                               else No_next)\<rparr>)"

text \<open>
  The parameters the builder gives for the query \<open>q_all\<close> and a batch of 1000: for
  offset 0 and for a skip override of \<open>None\<close> they are the same.
\<close>

definition p_first :: params where
  "p_first = [(''search'', PStr ''serious:1''), (''sort'', PStr ''receivedate:asc'')]"

lemma build_params_q_all:
  "build_params q_all (Some 1000) k
     = (case k of
          None \<Rightarrow> p_first
        | Some k' \<Rightarrow> if k' > 0 then p_first @ [(''skip'', PInt k')] else p_first)"
  by (simp add: build_params_def q_all_def replace_def p_first_def split: option.splits)

lemma data_set_offset:
  assumes "k < 25"
  shows "\<exists>lnk. data_set n (build_params q_all (Some 1000) (Some (1000 * int k)))
           = Page \<lparr>results = [1000 * k..<1000 * k + 1000], meta_total = Some 30000,
                   link_header = lnk\<rparr>"
proof -
  have "nat (1000 * int k) = 1000 * k" "nat (1000 * int k + 1000) = 1000 * k + 1000"
    by (simp_all add: nat_add_distrib nat_mult_distrib)
  with assms show ?thesis
    by (cases "k = 0")
       (simp_all add: build_params_q_all data_set_def first_record_def cursor_def
          requested_skip_def requested_limit_def dict_get_def p_first_def Let_def)
qed

text \<open>The parameters of the \<open>j\<close>-th request of the second loop.\<close>

definition cursor_params :: "nat \<Rightarrow> params" where
  "cursor_params j = (if j = 0 then p_first else with_cursor (1000 * j) p_first)"

lemma data_set_cursor:
  assumes "j < 5"
  shows "data_set n (cursor_params j)
           = Page \<lparr>results = [1000 * j..<1000 * j + 1000], meta_total = Some 30000,
                   link_header = Next (cursor_params (Suc j))\<rparr>"
proof -
  have "nat (1000 * int j) = 1000 * j" "nat (1000 * int j + 1000) = 1000 * j + 1000"
    by (simp_all add: nat_add_distrib nat_mult_distrib)
  with assms show ?thesis
    by (cases "j = 0")
       (simp_all add: cursor_params_def with_cursor_def data_set_def first_record_def cursor_def
          requested_skip_def requested_limit_def dict_get_def p_first_def Let_def)
qed


text \<open>The records 0 to \<open>n - 1\<close>, and the states of the run on this service.\<close>

definition pages_upto :: "nat \<Rightarrow> nat fda_record list" where
  "pages_upto n = map Record [0..<n]"

lemma length_pages_upto [simp]: "length (pages_upto n) = n"
  by (simp add: pages_upto_def)

lemma pages_upto_Suc: "pages_upto (1000 * k) @ map Record [1000 * k..<1000 * k + 1000]
                       = pages_upto (1000 + 1000 * k)"
proof -
  have "[0..<1000 * k + 1000] = [0..<1000 * k] @ [1000 * k..<1000 * k + 1000]"
    using upt_add_eq_append [of 0 "1000 * k" 1000] by simp
  then show ?thesis by (simp add: pages_upto_def add.commute)
qed

definition data_offset_at :: "nat \<Rightarrow> nat pstate \<Rightarrow> bool" where
  "data_offset_at k s =
     (query s = q_all \<and> user_skip s = 0 \<and> current_skip s = 1000 * int k
      \<and> all_results s = pages_upto (1000 * k) \<and> remaining s = Infinite
      \<and> total_available s = (if k = 0 then None else Some 30000)
      \<and> sent s = k \<and> logs (events s) = [])"

lemma data_offset_step:
  assumes inv: "data_offset_at k s" and k: "k < 25"
  shows "\<exists>s'. skip_limit_step data_set s = Continue s' \<and> data_offset_at (Suc k) s'"
proof -
  let ?p = "build_params q_all (Some 1000) (Some (1000 * int k))"
  from data_set_offset [OF k, of k] obtain lnk
    where page: "data_set k ?p = Page \<lparr>results = [1000 * k..<1000 * k + 1000],
                   meta_total = Some 30000, link_header = lnk\<rparr>"
    by blast
  from inv have f: "query s = q_all" "user_skip s = 0" "current_skip s = 1000 * int k"
      "all_results s = pages_upto (1000 * k)" "remaining s = Infinite"
      "total_available s = (if k = 0 then None else Some 30000)" "sent s = k"
      "logs (events s) = []"
    by (simp_all add: data_offset_at_def)
  let ?s' = "s\<lparr>params := ?p, sent := Suc k,
               events := events s @ [Acquire_minute, Acquire_day, Get Skip_limit ?p],
               total_available := Some 30000,
               all_results := pages_upto (1000 * Suc k),
               remaining := Infinite,
               current_skip := 1000 * int k + 1000\<rparr>"
  have fetch: "skip_limit_fetch data_set 1000 s = Continue ?s'"
    using page f k pages_upto_Suc [of k]
    by (simp add: skip_limit_fetch_def session_get_def emit_def call_build_params_def Let_def)
  have "skip_limit_step data_set s = Continue ?s'"
    using f k by (simp add: skip_limit_step_def fetch Let_def)
  moreover have "data_offset_at (Suc k) ?s'"
    using f by (simp add: data_offset_at_def logs_append)
  ultimately show ?thesis by blast
qed

lemma data_offset_loop:
  "data_offset_at k s \<Longrightarrow> k = 25 - n \<Longrightarrow> n \<le> 25 \<Longrightarrow>
   \<exists>s'. skip_limit_loop data_set s = (None, s') \<and> data_offset_at 25 s'"
proof (induction n arbitrary: k s)
  case 0
  then have "current_skip s = 25000" and "data_offset_at 25 s"
    by (simp_all add: data_offset_at_def)
  then show ?case
    by (subst skip_limit_loop.simps) simp
next
  case (Suc n)
  then have k: "k < 25" by simp
  from data_offset_step [OF Suc.prems(1) k]
  obtain s1 where s1: "skip_limit_step data_set s = Continue s1" "data_offset_at (Suc k) s1"
    by blast
  from Suc.prems have "Suc k = 25 - n" "n \<le> 25" by simp_all
  from Suc.IH [OF s1(2) this]
  obtain s' where s': "skip_limit_loop data_set s1 = (None, s')" "data_offset_at 25 s'"
    by blast
  from Suc.prems(1) k have "is_positive (remaining s)" "current_skip s < 25000"
    by (simp_all add: data_offset_at_def)
  with s1(1) s' show ?case
    by (subst skip_limit_loop.simps) simp
qed

definition data_cursor_at :: "nat \<Rightarrow> nat pstate \<Rightarrow> bool" where
  "data_cursor_at j s =
     (query s = q_all \<and> current_skip s = 25000
      \<and> all_results s = pages_upto 25000 @ pages_upto (1000 * j)
      \<and> remaining s = Infinite \<and> total_available s = Some 30000
      \<and> sent s = 25 + j \<and> params s = cursor_params j
      \<and> logs (events s) = [Switching])"

lemma data_cursor_step:
  assumes inv: "data_cursor_at j s" and j: "j < 4"
  shows "\<exists>s'. search_after_step data_set s = Continue s' \<and> data_cursor_at (Suc j) s'"
proof -
  from j have "j < 5" by simp
  note page = data_set_cursor [OF this, of "25 + j"]
  from inv have f: "query s = q_all" "current_skip s = 25000"
      "all_results s = pages_upto 25000 @ pages_upto (1000 * j)"
      "remaining s = Infinite" "total_available s = Some 30000"
      "sent s = 25 + j" "params s = cursor_params j" "logs (events s) = [Switching]"
    by (simp_all add: data_cursor_at_def)
  let ?s' = "s\<lparr>sent := Suc (25 + j),
               events := events s @ [Acquire_minute, Acquire_day, Get Search_after (cursor_params j)],
               all_results := pages_upto 25000 @ pages_upto (1000 * Suc j),
               remaining := Infinite,
               params := cursor_params (Suc j)\<rparr>"
  have "search_after_step data_set s = Continue ?s'"
    using page f j pages_upto_Suc [of j]
    by (simp add: search_after_step_def session_get_def emit_def Let_def)
  moreover have "data_cursor_at (Suc j) ?s'"
    using f by (simp add: data_cursor_at_def logs_append)
  ultimately show ?thesis by blast
qed

lemma data_cursor_last_step:
  assumes inv: "data_cursor_at 4 s"
  shows "\<exists>s'. search_after_step data_set s = Break s'
            \<and> all_results s' = pages_upto 25000 @ pages_upto 5000
            \<and> total_available s' = Some 30000 \<and> query s' = q_all \<and> sent s' = 30
            \<and> logs (events s') = [Switching, Retrieved_all]"
proof -
  note page = data_set_cursor [of 4 29]
  from inv have f: "query s = q_all" "current_skip s = 25000"
      "all_results s = pages_upto 25000 @ pages_upto 4000"
      "remaining s = Infinite" "total_available s = Some 30000"
      "sent s = 29" "params s = cursor_params 4" "logs (events s) = [Switching]"
    by (simp_all add: data_cursor_at_def)
  let ?s' = "s\<lparr>sent := 30,
               events := events s @ [Acquire_minute, Acquire_day, Get Search_after (cursor_params 4),
                                     Log Retrieved_all],
               all_results := pages_upto 25000 @ pages_upto 5000,
               remaining := Infinite\<rparr>"
  have "search_after_step data_set s = Break ?s'"
    using page f pages_upto_Suc [of 4]
    by (simp add: search_after_step_def session_get_def emit_def Let_def)
  moreover have "logs (events ?s') = [Switching, Retrieved_all]"
    using f by (simp add: logs_append)
  ultimately show ?thesis using f by (intro exI [of _ ?s']) simp
qed

lemma data_cursor_loop:
  "data_cursor_at j s \<Longrightarrow> j = 4 - n \<Longrightarrow> n \<le> 4 \<Longrightarrow>
   \<exists>s'. search_after_loop data_set s = (None, s')
        \<and> all_results s' = pages_upto 25000 @ pages_upto 5000
        \<and> total_available s' = Some 30000 \<and> query s' = q_all \<and> sent s' = 30
        \<and> logs (events s') = [Switching, Retrieved_all]"
proof (induction n arbitrary: j s)
  case 0
  then have inv: "data_cursor_at 4 s" by simp
  from data_cursor_last_step [OF inv]
  obtain s' where "search_after_step data_set s = Break s'"
      "all_results s' = pages_upto 25000 @ pages_upto 5000"
      "total_available s' = Some 30000" "query s' = q_all" "sent s' = 30"
      "logs (events s') = [Switching, Retrieved_all]"
    by blast
  moreover from inv have "is_positive (remaining s)" by (simp add: data_cursor_at_def)
  ultimately show ?case
    by (subst search_after_loop.simps) simp
next
  case (Suc n)
  then have j: "j < 4" by simp
  from data_cursor_step [OF Suc.prems(1) j]
  obtain s1 where s1: "search_after_step data_set s = Continue s1" "data_cursor_at (Suc j) s1"
    by blast
  from Suc.prems have "Suc j = 4 - n" "n \<le> 4" by simp_all
  from Suc.IH [OF s1(2) this]
  obtain s' where "search_after_loop data_set s1 = (None, s')"
      "all_results s' = pages_upto 25000 @ pages_upto 5000"
      "total_available s' = Some 30000" "query s' = q_all" "sent s' = 30"
      "logs (events s') = [Switching, Retrieved_all]"
    by blast
  moreover from Suc.prems(1) have "is_positive (remaining s)" by (simp add: data_cursor_at_def)
  ultimately show ?case
    using s1(1) by (subst search_after_loop.simps) simp
qed

text \<open>
  Claim C3, at an input where the code departs from it. The query has limit \<open>-1\<close>,
  no skip and a sort field, and passes \<open>__post_init__\<close>; the service reports 30000
  records, serves every batch of the run in full and links while records remain. The run
  sends 30 requests and switches once, and returns 30000 records, but not the 30000
  records of the data set: the first request of the second loop carries neither a skip
  nor a cursor, so the service answers it with the first page again, and the result is
  the records 0 to 24999 followed by the records 0 to 4999. Record 25000 is not in it.
\<close>

theorem hybrid_paging_repeats_first_pages:
  "post_init q_all = Inr ()
   \<and> api_search data_set q_all
       = Inr \<lparr>qr_query = Some q_all, total_results = 30000,
              records = map Record ([0..<25000] @ [0..<5000])\<rparr>
   \<and> fst (run data_set q_all) = None
   \<and> sent (snd (run data_set q_all)) = 30
   \<and> logs (events (snd (run data_set q_all))) = [Switching, Retrieved_all]
   \<and> Record 25000 \<notin> set (map Record ([0..<25000] @ [0..<5000]))
   \<and> \<not> distinct (map Record ([0..<25000] @ [0..<5000]))"
proof -
  have valid: "post_init q_all = Inr ()"
    by (simp add: post_init_def validate_limit_def validate_skip_def validate_sort_def q_all_def)
  have "data_offset_at 0 (start q_all)"
    by (simp add: data_offset_at_def start_unfold q_all_def pages_upto_def)
  from data_offset_loop [OF this, of 25]
  obtain s1 where s1: "skip_limit_loop data_set (start q_all) = (None, s1)"
      "data_offset_at 25 s1"
    by auto
  from s1(2) have f1: "query s1 = q_all" "current_skip s1 = 25000" "sent s1 = 25"
      "all_results s1 = pages_upto 25000" "remaining s1 = Infinite"
      "total_available s1 = Some 30000" "logs (events s1) = []"
    by (simp_all add: data_offset_at_def)
  let ?c = "call_build_params (Some 1000) None (emit [Log Switching] s1)"
  have "data_cursor_at 0 ?c"
    using f1
    by (simp add: data_cursor_at_def call_build_params_def emit_def logs_append
          build_params_q_all cursor_params_def pages_upto_def)
  from data_cursor_loop [OF this, of 4]
  obtain s2 where s2: "search_after_loop data_set ?c = (None, s2)"
      "all_results s2 = pages_upto 25000 @ pages_upto 5000"
      "total_available s2 = Some 30000" "query s2 = q_all" "sent s2 = 30"
      "logs (events s2) = [Switching, Retrieved_all]"
    by auto
  have sort: "truthy (q_sort q_all)" by (simp add: q_all_def)
  have "search_after_phase data_set s1 = (None, s2)"
    using f1 sort s2(1)
    by (simp add: search_after_phase_def emit_def call_build_params_def Let_def)
  with s1(1) have run: "run data_set q_all = (None, s2)"
    by (simp add: run_def)
  have missing: "Record (25000::nat) \<notin> set (map Record ([0..<25000] @ [0..<5000]))"
    by auto
  have twice: "\<not> distinct (map Record ([0..<25000] @ [0..<5000 :: nat]))"
  proof -
    have "Record (0::nat) \<in> set (map Record [0..<25000]) \<inter> set (map Record [0..<5000])"
      by simp
    then show ?thesis
      by (simp only: map_append distinct_append) blast
  qed
  from valid run s2 missing twice show ?thesis
    by (simp add: api_search_def pages_upto_def)
qed

subsection \<open>How a run without a limit ends\<close>

text \<open>
  The log lines with which a run stops because the data set has nothing more to give:
  the total says so, a page is empty or short, the count reached the total, offset 25000
  was reached without a sort field, or a page has no next link that can be read.
\<close>

fun exhaustion :: "message \<Rightarrow> bool" where
  "exhaustion End_of_total = True"
| "exhaustion No_more_results = True"
| "exhaustion Partial_batch = True"
| "exhaustion Retrieved_all = True"
| "exhaustion No_sort = True"
| "exhaustion No_more_search_after = True"
| "exhaustion No_link = True"
| "exhaustion Bad_link = True"
| "exhaustion Switching = False"
| "exhaustion API_error = False"
| "exhaustion Network_error = False"

text \<open>
  \<open>stopped\<close>: the last log line of the run is one of these. \<open>always_pages\<close>: the
  service answers every request with a page. \<open>more_to_see\<close>: the total is known and
  exceeds the number of records held.
\<close>

definition stopped :: "'d pstate \<Rightarrow> bool" where
  "stopped s = (logs (events s) \<noteq> [] \<and> exhaustion (last (logs (events s))))"

definition always_pages :: "'d service \<Rightarrow> bool" where
  "always_pages service = (\<forall>n p. is_page (service n p))"

definition more_to_see :: "'d pstate \<Rightarrow> bool" where
  "more_to_see s = (\<exists>t. total_available s = Some t \<and> int (length (all_results s)) < t)"

lemma stopped_emit: "exhaustion m \<Longrightarrow> stopped (emit [Log m] s)"
  by (simp add: stopped_def emit_def logs_append)

fun offset_step_unlimited :: "'d pstate \<Rightarrow> 'd step \<Rightarrow> bool" where
  "offset_step_unlimited s (Continue s') = (remaining s' = Infinite \<and> more_to_see s')"
| "offset_step_unlimited s (Break s') =
     (remaining s' = Infinite \<and> current_skip s' = current_skip s \<and> stopped s')"
| "offset_step_unlimited s (Raise e s') = False"

lemma skip_limit_fetch_unlimited:
  assumes "always_pages service" and "remaining s = Infinite"
  shows "offset_step_unlimited s (skip_limit_fetch service b s)"
proof -
  let ?s = "call_build_params (Some b) (Some (current_skip s)) s"
  from assms(1) obtain data where "service (sent ?s) (params ?s) = Page data"
    unfolding always_pages_def by (metis is_page.elims(2))
  with assms(2) show ?thesis
    by (simp add: skip_limit_fetch_def session_get_def call_build_params_def Let_def
          emit_def stopped_def logs_append more_to_see_def)
qed

lemma skip_limit_step_unlimited:
  assumes "always_pages service" and "remaining s = Infinite"
  shows "offset_step_unlimited s (skip_limit_step service s)"
  using assms
  by (simp add: skip_limit_step_def skip_limit_fetch_unlimited Let_def emit_def stopped_def
        logs_append split: option.splits)

lemma skip_limit_loop_unlimited:
  "always_pages service \<Longrightarrow> remaining s = Infinite \<Longrightarrow>
   current_skip s < 25000 \<or> more_to_see s \<Longrightarrow>
   \<exists>s'. skip_limit_loop service s = (None, s') \<and> remaining s' = Infinite
              \<and> (if current_skip s' < 25000 then stopped s' else more_to_see s')"
proof (induction service s rule: skip_limit_loop.induct)
  case (1 service s)
  show ?case
  proof (cases "current_skip s < 25000")
    case False
    with "1.prems" show ?thesis
      by (subst skip_limit_loop.simps) auto
  next
    case True
    with "1.prems"(2) have guard: "is_positive (remaining s) \<and> current_skip s < 25000"
      by simp
    from skip_limit_step_unlimited [OF "1.prems"(1,2)]
    have ok: "offset_step_unlimited s (skip_limit_step service s)" .
    show ?thesis
    proof (cases "skip_limit_step service s")
      case (Continue s1)
      with ok have s1: "remaining s1 = Infinite" "more_to_see s1" by simp_all
      from "1.IH" [OF guard Continue "1.prems"(1) s1(1)] s1(2)
      obtain s' where "skip_limit_loop service s1 = (None, s')" "remaining s' = Infinite"
          "if current_skip s' < 25000 then stopped s' else more_to_see s'"
        by blast
      with guard Continue show ?thesis
        by (subst skip_limit_loop.simps) simp
    next
      case (Break s1)
      with ok True guard show ?thesis
        by (subst skip_limit_loop.simps) simp
    next
      case (Raise e s1)
      with ok show ?thesis by simp
    qed
  qed
qed

fun cursor_step_unlimited :: "'d pstate \<Rightarrow> 'd step \<Rightarrow> bool" where
  "cursor_step_unlimited s (Continue s') =
     (remaining s' = Infinite \<and> total_available s' = total_available s)"
| "cursor_step_unlimited s (Break s') = (remaining s' = Infinite \<and> stopped s')"
| "cursor_step_unlimited s (Raise e s') = False"

lemma search_after_step_unlimited:
  assumes "always_pages service" and "remaining s = Infinite" and "total_available s = Some t"
  shows "cursor_step_unlimited s (search_after_step service s)"
proof -
  from assms(1) obtain data where "service (sent s) (params s) = Page data"
    unfolding always_pages_def by (metis is_page.elims(2))
  with assms(2,3) show ?thesis
    by (simp add: search_after_step_def session_get_def Let_def emit_def stopped_def
          logs_append split: next_link.splits)
qed

lemma search_after_loop_unlimited:
  "always_pages service \<Longrightarrow> remaining s = Infinite \<Longrightarrow> total_available s = Some t \<Longrightarrow>
         \<exists>s'. search_after_loop service s = (None, s') \<and> remaining s' = Infinite \<and> stopped s'"
proof (induction service s rule: search_after_loop.induct)
  case (1 service s)
  from "1.prems"(2) have guard: "is_positive (remaining s)" by simp
  from search_after_step_unlimited [OF "1.prems"]
  have ok: "cursor_step_unlimited s (search_after_step service s)" .
  show ?case
  proof (cases "search_after_step service s")
    case (Continue s1)
    with ok "1.prems"(3) have s1: "remaining s1 = Infinite" "total_available s1 = Some t"
      by simp_all
    from "1.IH" [OF guard Continue "1.prems"(1) s1]
    obtain s' where "search_after_loop service s1 = (None, s')" "remaining s' = Infinite"
        "stopped s'"
      by blast
    with guard Continue show ?thesis
      by (subst search_after_loop.simps) simp
  next
    case (Break s1)
    with ok guard show ?thesis
      by (subst search_after_loop.simps) simp
  next
    case (Raise e s1)
    with ok show ?thesis by simp
  qed
qed

lemma search_after_phase_unlimited:
  assumes "always_pages service" and "remaining s = Infinite"
    and "if current_skip s < 25000 then stopped s else more_to_see s"
  shows "\<exists>s'. search_after_phase service s = (None, s') \<and> remaining s' = Infinite \<and> stopped s'"
proof (cases "current_skip s < 25000")
  case True
  with assms show ?thesis
    by (simp add: search_after_phase_def)
next
  case False
  with assms(3) obtain t where t: "total_available s = Some t" "int (length (all_results s)) < t"
    by (auto simp: more_to_see_def)
  show ?thesis
  proof (cases "truthy (q_sort (query s))")
    case False
    have "stopped (emit [Log No_sort] (emit [Log Switching] s))"
      by (simp add: stopped_emit)
    moreover have "remaining (emit [Log No_sort] (emit [Log Switching] s)) = Infinite"
      using assms(2) by (simp add: emit_def)
    ultimately show ?thesis
      using False \<open>\<not> current_skip s < 25000\<close> assms(2) t
      by (simp add: search_after_phase_def Let_def emit_def)
  next
    case True
    let ?c = "call_build_params (Some (min_with (remaining (emit [Log Switching] s)) 1000)) None
                (emit [Log Switching] s)"
    have "remaining ?c = Infinite" "total_available ?c = Some t"
      using assms(2) t by (simp_all add: call_build_params_def emit_def)
    from search_after_loop_unlimited [OF assms(1) this]
    obtain s' where "search_after_loop service ?c = (None, s')" "remaining s' = Infinite"
        "stopped s'"
      by blast
    with True \<open>\<not> current_skip s < 25000\<close> assms(2) t show ?thesis
      by (simp add: search_after_phase_def Let_def emit_def)
  qed
qed

text \<open>
  With limit \<open>-1\<close> and a skip below 25000, against a service that answers every
  request with a page, the run returns, \<open>remaining\<close> is still infinite at the end,
  and the last decision logged is one of the stops above.
\<close>

lemma unlimited_stops_on_exhaustion:
  fixes service :: "'d service"
  assumes "q_limit q = Some (- 1)"
    and "q_skip q = None \<or> (\<exists>k. q_skip q = Some k \<and> k < 25000)"
    and "always_pages service"
  shows "\<exists>s. run service q = (None, s) \<and> remaining s = Infinite \<and> stopped s"
proof -
  let ?s = "start q :: 'd pstate"
  have "remaining ?s = Infinite" "current_skip ?s < 25000 \<or> more_to_see ?s"
    using assms(1,2) by (auto simp: start_unfold)
  from skip_limit_loop_unlimited [OF assms(3) this]
  obtain s1 where s1: "skip_limit_loop service ?s = (None, s1)" "remaining s1 = Infinite"
      "if current_skip s1 < 25000 then stopped s1 else more_to_see s1"
    by blast
  from search_after_phase_unlimited [OF assms(3) s1(2,3)] s1(1) show ?thesis
    by (simp add: run_def)
qed

text \<open>
  With limit \<open>-1\<close> and skip 25000, which the validation accepts, the run ends in none
  of these ways.
\<close>

definition q_from_25000 :: query where
  "q_from_25000 = \<lparr>q_ENDPOINT_PATH = ''/drug/event.json'', q_search = Some ''serious:1'',
      q_sort = Some ''receivedate:asc'', q_count = None, q_limit = Some (- 1),
      q_skip = Some 25000\<rparr>"

text \<open>
  Claim C8, at the input where the code departs from it. The query passes
  \<open>__post_init__\<close>; whatever the service is, \<open>api_search\<close> raises \<open>TypeError\<close> with
  nothing logged and no request sent, so the run ends neither on an exhausted data set
  nor on the remaining count.
\<close>

theorem unlimited_from_25000_raises:
  "post_init q_from_25000 = Inr ()
   \<and> api_search service q_from_25000 = Inl TypeError
   \<and> logs (events (snd (run service q_from_25000))) = []
   \<and> sent (snd (run service q_from_25000)) = 0"
proof -
  have "q_skip q_from_25000 = Some 25000"
    by (simp add: q_from_25000_def)
  moreover have "is_positive (remaining (start q_from_25000 :: 'a pstate))"
    by (simp add: start_unfold q_from_25000_def)
  ultimately have "run service q_from_25000 = (Some TypeError, start q_from_25000)"
    by (rule run_from_25000)
  moreover have "post_init q_from_25000 = Inr ()"
    by (simp add: post_init_def validate_limit_def validate_skip_def validate_sort_def
          q_from_25000_def)
  ultimately show ?thesis
    by (simp add: api_search_def start_untouched)
qed

end
